theory Spec2Isabelle
  imports Main
begin

section \<open>Values and errors\<close>

text \<open>
  A Python \<^verbatim>\<open>str\<close> that carries text is the list of its Unicode code points;
  \<open>str\<close> turns a literal into one. Names fixed by the program (dictionary keys, tags,
  attribute names, URLs) stay literals.
\<close>

type_synonym pystr = "nat list"

definition str :: "string \<Rightarrow> pystr" where
  "str s = map of_char s"

text \<open>
  A decoded JSON document, as \<^verbatim>\<open>response.json()\<close> hands it to the transformer.
  \<open>JNull\<close> is Python's \<^verbatim>\<open>None\<close>; an object is its list of key/value pairs, read with
  \<open>map_of\<close>; numbers are the integers (JSON floats are left out).
\<close>

datatype json =
    JNull
  | JBool bool
  | JNum int
  | JStr pystr
  | JArr "json list"
  | JObj "(string \<times> json) list"

text \<open>The exceptions the ETL core can raise, as values.\<close>

datatype error =
    KeyError pystr
  | TypeError
  | AttributeError
  | ValueError string
  | WrongServiceCalled
  | ServiceNotImplementedError string
  | UnboundLocalError string
  | IntegrityError string
  | OverflowError string

section \<open>config/config.py\<close>

text \<open>
  \<^verbatim>\<open>Config.paramBuilder\<close>. The parameter dictionary is an association list in insertion
  order; \<^verbatim>\<open>user_params['date']\<close> raises \<^verbatim>\<open>KeyError\<close> on a missing key. In the last
  branch the source builds a \<^verbatim>\<open>ValueError\<close> and drops it (there is no \<^verbatim>\<open>raise\<close>), so
  control falls through to \<^verbatim>\<open>return params\<close>.
\<close>

definition BASE_URL :: string where
  "BASE_URL = ''https://www.ecfr.gov/''"

definition paramBuilder :: "string \<Rightarrow> (string \<times> string) list \<Rightarrow> error + (string \<times> string) list" where
  "paramBuilder service user_params =
     (let params = [(''service'', service)] in
      if service = ''admin'' then
        Inr (params @ [(''base_url'', BASE_URL), (''endpoint'', ''api/admin/v1/agencies.json'')])
      else if service = ''versioner'' then
        (case map_of user_params ''date'' of
           None \<Rightarrow> Inl (KeyError (str ''date''))
         | Some d \<Rightarrow>
             (case map_of user_params ''title'' of
                None \<Rightarrow> Inl (KeyError (str ''title''))
              | Some t \<Rightarrow> Inr (params @ [(''base_url'', BASE_URL), (''date'', d), (''title'', t)])))
      else
        (let dropped = ValueError (''Unsupported service type: '' @ service) in Inr params))"

section \<open>etl/transform.py: clean_text\<close>

text \<open>
  Python's \<^verbatim>\<open>\s\<close> on a \<^verbatim>\<open>str\<close> pattern and \<^verbatim>\<open>str.strip()\<close> use the same
  whitespace test; these are the code points it accepts. The blank is code point 32.
\<close>

definition is_space :: "nat \<Rightarrow> bool" where
  "is_space n =
     ((9 \<le> n \<and> n \<le> 13) \<or> (28 \<le> n \<and> n \<le> 32) \<or> n = 133 \<or> n = 160 \<or> n = 5760 \<or>
      (8192 \<le> n \<and> n \<le> 8202) \<or> n = 8232 \<or> n = 8233 \<or> n = 8239 \<or> n = 8287 \<or>
      n = 12288)"

text \<open>\<^verbatim>\<open>re.sub(r'\s+', ' ', text)\<close>: every maximal run of whitespace becomes one space.\<close>

function re_sub_ws :: "pystr \<Rightarrow> pystr" where
  "re_sub_ws [] = []"
| "re_sub_ws (c # cs) =
     (if is_space c then 32 # re_sub_ws (dropWhile is_space cs)
      else c # re_sub_ws cs)"
  by pat_completeness auto
termination
  by (relation "measure length") (auto simp: le_imp_less_Suc length_dropWhile_le)

text \<open>\<^verbatim>\<open>str.strip()\<close>.\<close>

definition strip :: "pystr \<Rightarrow> pystr" where
  "strip s = rev (dropWhile is_space (rev (dropWhile is_space s)))"

text \<open>Python truthiness of a decoded JSON value (\<^verbatim>\<open>if text:\<close>).\<close>

fun truthy :: "json \<Rightarrow> bool" where
  "truthy JNull = False"
| "truthy (JBool b) = b"
| "truthy (JNum n) = (n \<noteq> 0)"
| "truthy (JStr s) = (s \<noteq> [])"
| "truthy (JArr xs) = (xs \<noteq> [])"
| "truthy (JObj kvs) = (kvs \<noteq> [])"

text \<open>
  \<^verbatim>\<open>clean_text\<close>: a falsy argument gives the empty string; a non-empty string is
  collapsed and stripped; any other truthy value makes \<^verbatim>\<open>re.sub\<close> raise \<^verbatim>\<open>TypeError\<close>.
\<close>

fun clean_text :: "json \<Rightarrow> error + pystr" where
  "clean_text (JStr s) = (if s \<noteq> [] then Inr (strip (re_sub_ws s)) else Inr [])"
| "clean_text v = (if truthy v then Inl TypeError else Inr [])"

section \<open>etl/transform.py: transform_admin_api\<close>

text \<open>Sequencing of steps that may raise: the first exception ends the computation.\<close>

definition bind_res :: "error + 'a \<Rightarrow> ('a \<Rightarrow> error + 'b) \<Rightarrow> error + 'b" where
  "bind_res m f = (case m of Inl e \<Rightarrow> Inl e | Inr v \<Rightarrow> f v)"

text \<open>
  The three ways the transformer reads a decoded value: \<^verbatim>\<open>v[k]\<close>, \<^verbatim>\<open>v.get(k, d)\<close>
  and \<^verbatim>\<open>for x in v\<close>. Only a dictionary has \<^verbatim>\<open>.get\<close> and string subscripts; a list,
  a string (its characters) and a dictionary (its keys) can be iterated.
\<close>

fun py_index :: "json \<Rightarrow> string \<Rightarrow> error + json" where
  "py_index (JObj d) k =
     (case map_of d k of None \<Rightarrow> Inl (KeyError (str k)) | Some v \<Rightarrow> Inr v)"
| "py_index v k = Inl TypeError"

fun py_get :: "json \<Rightarrow> string \<Rightarrow> json \<Rightarrow> error + json" where
  "py_get (JObj d) k dflt = (case map_of d k of None \<Rightarrow> Inr dflt | Some v \<Rightarrow> Inr v)"
| "py_get v k dflt = Inl AttributeError"

fun py_iter :: "json \<Rightarrow> error + json list" where
  "py_iter (JArr xs) = Inr xs"
| "py_iter (JStr s) = Inr (map (\<lambda>c. JStr [c]) s)"
| "py_iter (JObj d) = Inr (map (\<lambda>kv. JStr (str (fst kv))) d)"
| "py_iter v = Inl TypeError"

text \<open>
  One \<^verbatim>\<open>{'title', 'chapter', 'part'}\<close> dictionary (the fields carry a prefix because
  \<^verbatim>\<open>chapter\<close> is a reserved word here).
\<close>

record cfr_ref =
  ref_title :: json
  ref_chapter :: json
  ref_part :: json

record agency_row =
  agency_id :: int
  name :: pystr
  short_name :: pystr
  display_name :: pystr
  sortable_name :: pystr
  slug :: pystr
  parent_id :: "int option"
  cfr_references :: "cfr_ref list"

text \<open>One element of the list comprehension over \<^verbatim>\<open>cfr_references\<close>.\<close>

definition ref_triple :: "json \<Rightarrow> error + cfr_ref" where
  "ref_triple ref =
     bind_res (py_get ref ''title'' JNull) (\<lambda>t.
     bind_res (py_get ref ''chapter'' JNull) (\<lambda>c.
     bind_res (py_get ref ''part'' JNull) (\<lambda>p.
     Inr \<lparr>ref_title = t, ref_chapter = c, ref_part = p\<rparr>)))"

fun ref_triples :: "json list \<Rightarrow> error + cfr_ref list" where
  "ref_triples [] = Inr []"
| "ref_triples (r # rs) =
     bind_res (ref_triple r) (\<lambda>x. bind_res (ref_triples rs) (\<lambda>xs. Inr (x # xs)))"

definition cfr_refs_of :: "json \<Rightarrow> error + cfr_ref list" where
  "cfr_refs_of agency =
     bind_res (py_get agency ''cfr_references'' (JArr [])) (\<lambda>v.
     bind_res (py_iter v) ref_triples)"

text \<open>\<^verbatim>\<open>clean_text(agency[k])\<close> and \<^verbatim>\<open>clean_text(agency.get(k))\<close>.\<close>

definition clean_required :: "json \<Rightarrow> string \<Rightarrow> error + pystr" where
  "clean_required agency k = bind_res (py_index agency k) clean_text"

definition clean_optional :: "json \<Rightarrow> string \<Rightarrow> error + pystr" where
  "clean_optional agency k = bind_res (py_get agency k JNull) clean_text"

text \<open>The local variables the two loops share.\<close>

record tstate =
  rows :: "agency_row list"
  slug_to_id :: "pystr \<rightharpoonup> int"
  next_id :: int

text \<open>The body of the inner loop, for one entry of \<^verbatim>\<open>children\<close>.\<close>

definition child_step :: "pystr \<Rightarrow> json \<Rightarrow> tstate \<Rightarrow> error + tstate" where
  "child_step agency_slug child st =
     bind_res (clean_required child ''slug'') (\<lambda>child_slug.
     bind_res (cfr_refs_of child) (\<lambda>child_cfr_refs.
     bind_res (clean_required child ''name'') (\<lambda>n.
     bind_res (clean_optional child ''short_name'') (\<lambda>sn.
     bind_res (clean_optional child ''display_name'') (\<lambda>dn.
     bind_res (clean_optional child ''sortable_name'') (\<lambda>son.
     bind_res (case slug_to_id st agency_slug of
                 None \<Rightarrow> Inl (KeyError agency_slug) | Some i \<Rightarrow> Inr i) (\<lambda>pid.
     Inr \<lparr>rows = rows st @
              [\<lparr>agency_id = next_id st, name = n, short_name = sn, display_name = dn,
                sortable_name = son, slug = child_slug, parent_id = Some pid,
                cfr_references = child_cfr_refs\<rparr>],
           slug_to_id = (slug_to_id st)(child_slug \<mapsto> next_id st),
           next_id = next_id st + 1\<rparr>)))))))"

fun children_loop :: "pystr \<Rightarrow> json list \<Rightarrow> tstate \<Rightarrow> error + tstate" where
  "children_loop agency_slug [] st = Inr st"
| "children_loop agency_slug (child # rest) st =
     bind_res (child_step agency_slug child st) (children_loop agency_slug rest)"

text \<open>The body of the outer loop, for one entry of \<^verbatim>\<open>agencies\<close>.\<close>

definition agency_step :: "json \<Rightarrow> tstate \<Rightarrow> error + tstate" where
  "agency_step agency st =
     bind_res (clean_required agency ''slug'') (\<lambda>agency_slug.
     bind_res (cfr_refs_of agency) (\<lambda>agency_cfr_refs.
     bind_res (clean_required agency ''name'') (\<lambda>n.
     bind_res (clean_optional agency ''short_name'') (\<lambda>sn.
     bind_res (clean_optional agency ''display_name'') (\<lambda>dn.
     bind_res (clean_optional agency ''sortable_name'') (\<lambda>son.
     bind_res (py_get agency ''children'' (JArr [])) (\<lambda>cv.
     bind_res (py_iter cv) (\<lambda>kids.
     children_loop agency_slug kids
       \<lparr>rows = rows st @
              [\<lparr>agency_id = next_id st, name = n, short_name = sn, display_name = dn,
                sortable_name = son, slug = agency_slug, parent_id = None,
                cfr_references = agency_cfr_refs\<rparr>],
        slug_to_id = (slug_to_id st)(agency_slug \<mapsto> next_id st),
        next_id = next_id st + 1\<rparr>))))))))"

fun agencies_loop :: "json list \<Rightarrow> tstate \<Rightarrow> error + tstate" where
  "agencies_loop [] st = Inr st"
| "agencies_loop (agency # rest) st = bind_res (agency_step agency st) (agencies_loop rest)"

text \<open>
  \<^verbatim>\<open>transform_admin_api\<close>; \<open>params\<close> is the dictionary the transformer was built with.
\<close>

definition service_of :: "(string \<times> string) list \<Rightarrow> error + string" where
  "service_of params =
     (case map_of params ''service'' of
        None \<Rightarrow> Inl (KeyError (str ''service'')) | Some s \<Rightarrow> Inr s)"

definition transform_admin_api :: "(string \<times> string) list \<Rightarrow> json \<Rightarrow> error + agency_row list" where
  "transform_admin_api params api_response =
     bind_res (service_of params) (\<lambda>service.
     if service \<noteq> ''admin'' then Inl WrongServiceCalled
     else
       bind_res (py_get api_response ''agencies'' (JArr [])) (\<lambda>av.
       bind_res (py_iter av) (\<lambda>agencies.
       bind_res (agencies_loop agencies \<lparr>rows = [], slug_to_id = Map.empty, next_id = 1\<rparr>) (\<lambda>st.
       Inr (rows st)))))"

text \<open>
  The vocabulary of the statements about the admin transform. \<open>items_of v k\<close> are the
  entries that \<^verbatim>\<open>for x in v.get(k, [])\<close> visits (none when that raises); the traversal
  of a payload lists every top-level entry followed by its children, in payload order;
  \<open>ref_as_given\<close> is a reference entry with its three values untouched, a missing key
  read as \<^verbatim>\<open>None\<close>.
\<close>

definition items_of :: "json \<Rightarrow> string \<Rightarrow> json list" where
  "items_of v k =
     (case bind_res (py_get v k (JArr [])) py_iter of Inl e \<Rightarrow> [] | Inr xs \<Rightarrow> xs)"

definition top_level :: "json \<Rightarrow> json list" where
  "top_level api_response = items_of api_response ''agencies''"

definition children_of :: "json \<Rightarrow> json list" where
  "children_of agency = items_of agency ''children''"

definition traversal :: "json \<Rightarrow> json list" where
  "traversal api_response = concat (map (\<lambda>a. a # children_of a) (top_level api_response))"

fun value_at :: "json \<Rightarrow> string \<Rightarrow> json" where
  "value_at (JObj d) k = (case map_of d k of None \<Rightarrow> JNull | Some v \<Rightarrow> v)"
| "value_at v k = JNull"

definition ref_as_given :: "json \<Rightarrow> cfr_ref" where
  "ref_as_given ref =
     \<lparr>ref_title = value_at ref ''title'', ref_chapter = value_at ref ''chapter'',
      ref_part = value_at ref ''part''\<rparr>"

text \<open>
  A payload in the shape the agencies endpoint documents: every agency and child is an
  object whose \<^verbatim>\<open>slug\<close> and \<^verbatim>\<open>name\<close> are present and hold a string (or a value Python
  counts as false, such as \<^verbatim>\<open>null\<close>), whose other name fields are absent or such a
  value, whose \<^verbatim>\<open>cfr_references\<close> is absent or a list of objects, and whose
  \<^verbatim>\<open>children\<close> is absent or a list of such objects.
\<close>

fun text_value :: "json \<Rightarrow> bool" where
  "text_value (JStr s) = True"
| "text_value v = (\<not> truthy v)"

fun is_obj :: "json \<Rightarrow> bool" where
  "is_obj (JObj d) = True"
| "is_obj v = False"

definition req_text :: "(string \<times> json) list \<Rightarrow> string \<Rightarrow> bool" where
  "req_text d k = (case map_of d k of None \<Rightarrow> False | Some v \<Rightarrow> text_value v)"

definition opt_text :: "(string \<times> json) list \<Rightarrow> string \<Rightarrow> bool" where
  "opt_text d k = (case map_of d k of None \<Rightarrow> True | Some v \<Rightarrow> text_value v)"

definition opt_list_of :: "(json \<Rightarrow> bool) \<Rightarrow> (string \<times> json) list \<Rightarrow> string \<Rightarrow> bool" where
  "opt_list_of P d k =
     (case map_of d k of None \<Rightarrow> True | Some (JArr xs) \<Rightarrow> list_all P xs | Some v \<Rightarrow> False)"

fun record_ok :: "json \<Rightarrow> bool" where
  "record_ok (JObj d) =
     (req_text d ''slug'' \<and> req_text d ''name'' \<and> opt_text d ''short_name'' \<and>
      opt_text d ''display_name'' \<and> opt_text d ''sortable_name'' \<and>
      opt_list_of is_obj d ''cfr_references'')"
| "record_ok v = False"

fun agency_ok :: "json \<Rightarrow> bool" where
  "agency_ok (JObj d) = (record_ok (JObj d) \<and> opt_list_of record_ok d ''children'')"
| "agency_ok v = False"

fun payload_ok :: "json \<Rightarrow> bool" where
  "payload_ok (JObj d) = opt_list_of agency_ok d ''agencies''"
| "payload_ok v = False"

text \<open>
  Parent links as the statement about them reads: walking the top-level entries with the
  id counter, an agency has no parent and each of its children has the agency's id. An
  agency shares no slug with its children when no child's cleaned slug is its own.
\<close>

fun expected_parents :: "json list \<Rightarrow> int \<Rightarrow> int option list" where
  "expected_parents [] n = []"
| "expected_parents (a # rest) n =
     None # replicate (length (children_of a)) (Some n) @
     expected_parents rest (n + 1 + int (length (children_of a)))"

definition no_shared_slug :: "json \<Rightarrow> bool" where
  "no_shared_slug a =
     list_all (\<lambda>c. clean_required c ''slug'' \<noteq> clean_required a ''slug'') (children_of a)"

section \<open>etl/transform.py: transform_versioner_api\<close>

text \<open>
  The parsed document, as \<^verbatim>\<open>etree.fromstring\<close> returns it: an element has a tag, its
  attributes, the text before its first child, its children and the text after its end
  tag. A comment or a processing instruction has no tag to match and no children; only
  the text after it is kept.
\<close>

datatype xml =
    Element string "(string \<times> pystr) list" "pystr option" "xml list" "pystr option"
  | Misc "pystr option"

fun has_tag :: "string \<Rightarrow> xml \<Rightarrow> bool" where
  "has_tag t (Element tg at tx cs aft) = (tg = t)"
| "has_tag t (Misc aft) = False"

fun subelements :: "xml \<Rightarrow> xml list" where
  "subelements (Element tg at tx cs aft) = cs"
| "subelements (Misc aft) = []"

fun text_of :: "xml \<Rightarrow> pystr option" where
  "text_of (Element tg at tx cs aft) = tx"
| "text_of (Misc aft) = None"

text \<open>\<^verbatim>\<open>el.get(k)\<close>: the attribute, or \<^verbatim>\<open>None\<close>.\<close>

fun xml_get :: "xml \<Rightarrow> string \<Rightarrow> pystr option" where
  "xml_get (Element tg at tx cs aft) k = map_of at k"
| "xml_get (Misc aft) k = None"

text \<open>All nodes below a node, in document order, the node itself excluded.\<close>

fun descendants :: "xml \<Rightarrow> xml list" where
  "descendants (Element tg at tx cs aft) = concat (map (\<lambda>c. c # descendants c) cs)"
| "descendants (Misc aft) = []"

text \<open>\<^verbatim>\<open>el.findall('.//T')\<close> and \<^verbatim>\<open>el.findtext('T')\<close>.\<close>

definition findall_desc :: "xml \<Rightarrow> string \<Rightarrow> xml list" where
  "findall_desc el t = filter (has_tag t) (descendants el)"

definition findtext :: "xml \<Rightarrow> string \<Rightarrow> pystr option" where
  "findtext el t =
     (case find (has_tag t) (subelements el) of
        None \<Rightarrow> None
      | Some h \<Rightarrow> Some (case text_of h of None \<Rightarrow> [] | Some s \<Rightarrow> s))"

text \<open>\<^verbatim>\<open>(el.findtext('HEAD') or '').strip()\<close>.\<close>

definition head_of :: "xml \<Rightarrow> pystr" where
  "head_of el = strip (case findtext el ''HEAD'' of None \<Rightarrow> [] | Some s \<Rightarrow> s)"

text \<open>
  \<^verbatim>\<open>p.itertext()\<close>: the text of the element, then for every node below it its text
  and the text after it, in document order; missing texts are skipped.
\<close>

fun opt_list :: "pystr option \<Rightarrow> pystr list" where
  "opt_list None = []"
| "opt_list (Some s) = [s]"

fun texts_with_tail :: "xml \<Rightarrow> pystr list" where
  "texts_with_tail (Element tg at tx cs aft) =
     opt_list tx @ concat (map texts_with_tail cs) @ opt_list aft"
| "texts_with_tail (Misc aft) = opt_list aft"

fun itertext :: "xml \<Rightarrow> pystr list" where
  "itertext (Element tg at tx cs aft) = opt_list tx @ concat (map texts_with_tail cs)"
| "itertext (Misc aft) = []"

text \<open>\<^verbatim>\<open>' '.join(xs)\<close>.\<close>

fun join_sp :: "pystr list \<Rightarrow> pystr" where
  "join_sp [] = []"
| "join_sp [x] = x"
| "join_sp (x # y # ys) = x @ 32 # join_sp (y # ys)"

definition body_of :: "xml \<Rightarrow> pystr" where
  "body_of div8 = join_sp (map (\<lambda>p. strip (join_sp (itertext p))) (findall_desc div8 ''P''))"

text \<open>
  An emitted dictionary. Its values are Python values, \<^verbatim>\<open>None\<close> or a string, so every
  field is a \<open>pystr option\<close>.
\<close>

record section_row =
  title_number :: "pystr option"
  title_head :: "pystr option"
  chapter_number :: "pystr option"
  chapter_head :: "pystr option"
  subchapter_number :: "pystr option"
  subchapter_head :: "pystr option"
  part_number :: "pystr option"
  part_head :: "pystr option"
  section_number :: "pystr option"
  section_title :: "pystr option"
  body :: "pystr option"

text \<open>The five nested loops, innermost first; each takes the labels read further out.\<close>

definition div8_row ::
  "pystr option \<Rightarrow> pystr \<Rightarrow> pystr option \<Rightarrow> pystr \<Rightarrow> pystr option \<Rightarrow> pystr \<Rightarrow>
   pystr option \<Rightarrow> pystr \<Rightarrow> xml \<Rightarrow> section_row" where
  "div8_row tn th cn ch sn sh pn ph div8 =
     \<lparr>title_number = tn, title_head = Some th,
      chapter_number = cn, chapter_head = Some ch,
      subchapter_number = sn, subchapter_head = Some sh,
      part_number = pn, part_head = Some ph,
      section_number = xml_get div8 ''N'', section_title = Some (head_of div8),
      body = Some (body_of div8)\<rparr>"

definition div5_rows ::
  "pystr option \<Rightarrow> pystr \<Rightarrow> pystr option \<Rightarrow> pystr \<Rightarrow> pystr option \<Rightarrow> pystr \<Rightarrow>
   xml \<Rightarrow> section_row list" where
  "div5_rows tn th cn ch sn sh div5 =
     map (div8_row tn th cn ch sn sh (xml_get div5 ''N'') (head_of div5))
       (findall_desc div5 ''DIV8'')"

definition div4_rows ::
  "pystr option \<Rightarrow> pystr \<Rightarrow> pystr option \<Rightarrow> pystr \<Rightarrow> xml \<Rightarrow> section_row list" where
  "div4_rows tn th cn ch div4 =
     concat (map (div5_rows tn th cn ch (xml_get div4 ''N'') (head_of div4))
       (findall_desc div4 ''DIV5''))"

definition div3_rows :: "pystr option \<Rightarrow> pystr \<Rightarrow> xml \<Rightarrow> section_row list" where
  "div3_rows tn th div3 =
     concat (map (div4_rows tn th (xml_get div3 ''N'') (head_of div3))
       (findall_desc div3 ''DIV4''))"

definition div1_rows :: "xml \<Rightarrow> section_row list" where
  "div1_rows div1 =
     concat (map (div3_rows (xml_get div1 ''N'') (head_of div1)) (findall_desc div1 ''DIV3''))"

text \<open>
  \<^verbatim>\<open>transform_versioner_api\<close>, from the parsed root on (parsing is the library's).
\<close>

definition transform_versioner_api :: "(string \<times> string) list \<Rightarrow> xml \<Rightarrow> error + section_row list" where
  "transform_versioner_api params root =
     bind_res (service_of params) (\<lambda>service.
     if service \<noteq> ''versioner'' then Inl WrongServiceCalled
     else Inr (concat (map div1_rows (findall_desc root ''DIV1''))))"

text \<open>
  The vocabulary of the statements about the versioner transform: the heading of an
  element in the specification's words (the text of its first \<^verbatim>\<open>HEAD\<close> child, trimmed,
  and the empty string when there is no such child), and the names of its attributes.
\<close>

definition trimmed_heading :: "xml \<Rightarrow> pystr" where
  "trimmed_heading el =
     (case find (has_tag ''HEAD'') (subelements el) of
        None \<Rightarrow> []
      | Some h \<Rightarrow> strip (case text_of h of None \<Rightarrow> [] | Some s \<Rightarrow> s))"

fun attr_keys :: "xml \<Rightarrow> string list" where
  "attr_keys (Element tg at tx cs aft) = map fst at"
| "attr_keys (Misc aft) = []"

section \<open>etl/extract.py\<close>

text \<open>
  What the one \<^verbatim>\<open>requests.get\<close> of a call does: it raises a \<^verbatim>\<open>RequestException\<close>
  (no connection, time-out), or it returns a response with a status code, a body and,
  when the body is JSON, its decoding. \<^verbatim>\<open>raise_for_status\<close> raises for the codes 400
  to 599; \<^verbatim>\<open>response.json()\<close> raises a \<^verbatim>\<open>RequestException\<close> on a body that is not
  JSON.
\<close>

datatype http_result =
    RequestFailed
  | Response nat pystr "json option"

datatype payload = PJson json | PText pystr

text \<open>An f-string field: \<^verbatim>\<open>None\<close> is printed as the word.\<close>

fun fmt :: "string option \<Rightarrow> string" where
  "fmt None = ''None''"
| "fmt (Some s) = s"

text \<open>
  \<^verbatim>\<open>extract_data\<close>. The network is a function from the requested URL to what the request
  does. The \<^verbatim>\<open>except\<close> clauses print and fall through, so after them the local variable
  is bound only if the \<^verbatim>\<open>try\<close> block ran to its end; returning an unbound local
  raises \<^verbatim>\<open>UnboundLocalError\<close>.
\<close>

definition extract_data :: "(string \<times> string) list \<Rightarrow> (string \<Rightarrow> http_result) \<Rightarrow> error + payload" where
  "extract_data params http =
     (let base_url = map_of params ''base_url''; endpoint = map_of params ''endpoint'' in
      if params = [] then Inl (ValueError ''The 'params' parameter cannot be null or empty.'')
      else case map_of params ''service'' of
        None \<Rightarrow> Inl (ValueError ''Missing 'service' key in parameters.'')
      | Some service \<Rightarrow>
          if service = ''admin'' then
            (let retrieved_data =
               (case http (fmt base_url @ ''/'' @ fmt endpoint) of
                  RequestFailed \<Rightarrow> None
                | Response status txt decoded \<Rightarrow>
                    if 400 \<le> status \<and> status < 600 then None else decoded)
             in case retrieved_data of
                  None \<Rightarrow> Inl (UnboundLocalError ''retrieved_data'')
                | Some d \<Rightarrow> Inr (PJson d))
          else if service = ''versioner'' then
            (case map_of params ''date'' of
               None \<Rightarrow> Inl (KeyError (str ''date''))
             | Some date \<Rightarrow>
                 (case map_of params ''title'' of
                    None \<Rightarrow> Inl (KeyError (str ''title''))
                  | Some ttl \<Rightarrow>
                      (let xml_endpoint =
                             ''api/versioner/v1/full/'' @ date @ ''/title-'' @ ttl @ ''.xml'';
                           xml_content =
                             (case http (fmt base_url @ ''/'' @ xml_endpoint) of
                                RequestFailed \<Rightarrow> None
                              | Response status txt decoded \<Rightarrow>
                                  if 400 \<le> status \<and> status < 600 then None else Some txt)
                       in case xml_content of
                            None \<Rightarrow> Inl (UnboundLocalError ''xml_content'')
                          | Some x \<Rightarrow> Inr (PText x))))
          else Inl (ServiceNotImplementedError service))"

section \<open>etl/load.py\<close>

text \<open>
  The values the loader binds to a statement (\<^verbatim>\<open>None\<close>, an integer, a string), and what
  a \<^verbatim>\<open>TEXT\<close> column keeps of them: an integer is stored as its decimal text (the
  digits are the code points from 48 on, the minus sign is 45).
\<close>

datatype sqlval = SNull | SInt int | SText pystr

function dec_nat :: "nat \<Rightarrow> pystr" where
  "dec_nat n = (if n < 10 then [48 + n] else dec_nat (n div 10) @ [48 + n mod 10])"
  by pat_completeness auto
termination
  by (relation "measure id") auto

definition dec_int :: "int \<Rightarrow> pystr" where
  "dec_int i = (if i < 0 then 45 # dec_nat (nat (- i)) else dec_nat (nat i))"

fun to_text :: "sqlval \<Rightarrow> pystr option" where
  "to_text SNull = None"
| "to_text (SInt i) = Some (dec_int i)"
| "to_text (SText s) = Some s"

text \<open>
  The \<^verbatim>\<open>reference\<close> dictionary read with \<^verbatim>\<open>reference.get\<close> (the field for
  \<^verbatim>\<open>chapter\<close> has a suffix because the word is reserved here).
\<close>

record reference =
  title :: sqlval
  chapter_no :: sqlval
  part :: sqlval

text \<open>The rows of the tables \<^verbatim>\<open>agencies\<close> and \<^verbatim>\<open>cfr_references\<close>.\<close>

record agencies_row =
  agency_id_col :: int
  name_col :: pystr
  short_name_col :: pystr
  display_name_col :: pystr
  sortable_name_col :: pystr
  slug_col :: pystr
  parent_id_col :: "int option"

record cfr_references_row =
  reference_id_col :: int
  ref_agency_id_col :: int
  title_col :: "pystr option"
  chapter_col :: "pystr option"
  part_col :: "pystr option"

text \<open>
  The content of the database file: each table as the list of its rows, and for a table
  with \<^verbatim>\<open>AUTOINCREMENT\<close> the largest key it has handed out (\<^verbatim>\<open>sqlite_sequence\<close>).
\<close>

record tables =
  agencies :: "agencies_row list"
  cfr_sections :: "(int \<times> section_row) list"
  cfr_sections_seq :: int
  cfr_references_tbl :: "cfr_references_row list"
  cfr_references_seq :: int

text \<open>
  A connection sees its own uncommitted changes (\<open>working\<close>); \<open>committed\<close> is what a
  roll-back returns to. \<^verbatim>\<open>with self.conn:\<close> commits when its body ends normally and rolls
  back when the body raises.
\<close>

record connection =
  committed :: tables
  working :: tables

definition empty_tables :: tables where
  "empty_tables =
     \<lparr>agencies = [], cfr_sections = [], cfr_sections_seq = 0,
      cfr_references_tbl = [], cfr_references_seq = 0\<rparr>"

text \<open>
  \<^verbatim>\<open>DatabaseLoader.__init__\<close> on a file with the given content (\<open>empty_tables\<close> for a
  new file): \<^verbatim>\<open>CREATE TABLE IF NOT EXISTS\<close> leaves existing rows alone. The connection is
  opened with SQLite's defaults and no \<^verbatim>\<open>PRAGMA\<close> is ever issued; SQLite checks
  \<^verbatim>\<open>FOREIGN KEY\<close> clauses only after \<^verbatim>\<open>PRAGMA foreign_keys = ON\<close>, so on this
  connection the clause of \<^verbatim>\<open>cfr_references\<close> is not checked, while \<^verbatim>\<open>PRIMARY KEY\<close>,
  \<^verbatim>\<open>UNIQUE\<close> and \<^verbatim>\<open>NOT NULL\<close> are.
\<close>

definition DatabaseLoader :: "tables \<Rightarrow> connection" where
  "DatabaseLoader file = \<lparr>committed = file, working = file\<rparr>"

text \<open>
  \<^verbatim>\<open>insert_agency\<close>, on a dictionary as the admin transform emits it:
  \<^verbatim>\<open>INSERT OR REPLACE\<close> first deletes every row that the new one conflicts with, on the
  primary key or on the unique \<^verbatim>\<open>slug\<close>, then inserts. It runs outside \<^verbatim>\<open>with\<close>, so
  nothing is committed. (Ids beyond SQLite's 64-bit integers are left out.)
\<close>

definition stored_agency :: "agency_row \<Rightarrow> agencies_row" where
  "stored_agency a =
     \<lparr>agency_id_col = agency_id a, name_col = name a, short_name_col = short_name a,
      display_name_col = display_name a, sortable_name_col = sortable_name a,
      slug_col = slug a, parent_id_col = parent_id a\<rparr>"

definition conflicts :: "agencies_row \<Rightarrow> agencies_row \<Rightarrow> bool" where
  "conflicts new r = (agency_id_col r = agency_id_col new \<or> slug_col r = slug_col new)"

definition insert_agency :: "connection \<Rightarrow> agency_row \<Rightarrow> connection" where
  "insert_agency conn agency =
     (let new = stored_agency agency; t = working conn in
      conn\<lparr>working := t\<lparr>agencies := filter (\<lambda>r. \<not> conflicts new r) (agencies t) @ [new]\<rparr>\<rparr>)"

text \<open>
  An integer can be bound to a statement only if it fits SQLite's 64-bit integers;
  binding a larger one raises \<^verbatim>\<open>OverflowError\<close> before the statement runs.
\<close>

definition fits_int64 :: "int \<Rightarrow> bool" where
  "fits_int64 i = (- 9223372036854775808 \<le> i \<and> i \<le> 9223372036854775807)"

fun bindable :: "sqlval \<Rightarrow> bool" where
  "bindable (SInt i) = fits_int64 i"
| "bindable v = True"

fun bindable_id :: "int option \<Rightarrow> bool" where
  "bindable_id (Some i) = fits_int64 i"
| "bindable_id None = True"

text \<open>
  \<^verbatim>\<open>insert_cfr_reference\<close>, inside \<^verbatim>\<open>with self.conn:\<close>. The result is the exception
  raised, if any, and the connection afterwards.
\<close>

definition insert_cfr_reference ::
  "connection \<Rightarrow> int option \<Rightarrow> reference \<Rightarrow> error option \<times> connection" where
  "insert_cfr_reference conn agency_id_arg ref =
     (if bindable_id agency_id_arg \<and> bindable (title ref) \<and> bindable (chapter_no ref) \<and>
         bindable (part ref)
      then
       (case agency_id_arg of
        None \<Rightarrow>
          (Some (IntegrityError ''NOT NULL constraint failed: cfr_references.agency_id''),
           conn\<lparr>working := committed conn\<rparr>)
      | Some a \<Rightarrow>
          (let t = working conn;
               k = cfr_references_seq t + 1;
               t' = t\<lparr>cfr_references_tbl := cfr_references_tbl t @
                         [\<lparr>reference_id_col = k, ref_agency_id_col = a,
                           title_col = to_text (title ref),
                           chapter_col = to_text (chapter_no ref),
                           part_col = to_text (part ref)\<rparr>],
                      cfr_references_seq := k\<rparr>
           in (None, \<lparr>committed = t', working = t'\<rparr>)))
      else
        (Some (OverflowError ''Python int too large to convert to SQLite INTEGER''),
         conn\<lparr>working := committed conn\<rparr>))"

text \<open>\<^verbatim>\<open>insert_cfr_section\<close>, inside \<^verbatim>\<open>with self.conn:\<close>: always a new row.\<close>

definition insert_cfr_section :: "connection \<Rightarrow> section_row \<Rightarrow> connection" where
  "insert_cfr_section conn sec =
     (let t = working conn;
          k = cfr_sections_seq t + 1;
          t' = t\<lparr>cfr_sections := cfr_sections t @ [(k, sec)], cfr_sections_seq := k\<rparr>
      in \<lparr>committed = t', working = t'\<rparr>)"

section \<open>Fixtures\<close>

text \<open>
  The parameters \<^verbatim>\<open>Config('admin')\<close> builds; the agencies fixture of the end-to-end
  scenario (one department with one reference and one sub-office); a payload whose
  reference values are a number and strings with surrounding blanks; and a payload in
  which the first child of an agency carries the agency's own slug.
\<close>

definition admin_params :: "(string \<times> string) list" where
  "admin_params =
     [(''service'', ''admin''), (''base_url'', ''https://www.ecfr.gov/''),
      (''endpoint'', ''api/admin/v1/agencies.json'')]"

definition doe_payload :: json where
  "doe_payload =
     JObj [(''agencies'', JArr [
       JObj [(''name'', JStr (str ''Department Of Examples'')), (''short_name'', JStr (str ''DOE'')),
             (''display_name'', JStr (str ''DOE'')), (''sortable_name'', JStr (str ''doe'')),
             (''slug'', JStr (str ''doe'')),
             (''cfr_references'', JArr [
                JObj [(''title'', JStr (str ''1'')), (''chapter'', JStr (str ''I'')), (''part'', JStr [])]]),
             (''children'', JArr [
                JObj [(''name'', JStr (str ''Sub Office'')), (''short_name'', JStr (str ''SO'')),
                      (''display_name'', JStr (str ''SO'')), (''sortable_name'', JStr (str ''so'')),
                      (''slug'', JStr (str ''so'')), (''cfr_references'', JArr []),
                      (''children'', JArr [])]])]])]"

definition spaced_refs_payload :: json where
  "spaced_refs_payload =
     JObj [(''agencies'', JArr [
       JObj [(''name'', JStr (str ''A'')), (''slug'', JStr (str ''a'')),
             (''cfr_references'', JArr [
                JObj [(''title'', JNum 7), (''chapter'', JStr (str '' III  ''))]])]])]"

definition shared_slug_payload :: json where
  "shared_slug_payload =
     JObj [(''agencies'', JArr [
       JObj [(''name'', JStr (str ''A'')), (''slug'', JStr (str ''a'')),
             (''children'', JArr [
                JObj [(''name'', JStr (str ''B'')), (''slug'', JStr (str ''a''))],
                JObj [(''name'', JStr (str ''C'')), (''slug'', JStr (str ''c''))]])]])]"





text \<open>
  The parameters of a versioner run, and a document with one title, one chapter, one
  subchapter that has neither an \<^verbatim>\<open>N\<close> attribute nor a heading, one part and two
  sections, the second of them empty.
\<close>

definition versioner_params :: "(string \<times> string) list" where
  "versioner_params =
     [(''service'', ''versioner''), (''base_url'', ''https://www.ecfr.gov/''),
      (''date'', ''2024-01-01''), (''title'', ''1'')]"

definition sample_section :: xml where
  "sample_section =
     Element ''DIV8'' [(''N'', str ''1.1'')] None
       [Element ''HEAD'' [] (Some (str ''Scope'')) [] None,
        Element ''P'' [] (Some (str ''First ''))
          [Element ''I'' [] (Some (str ''para'')) [] (Some (str '' text. ''))] None,
        Element ''P'' [] (Some (str '' Second.'')) [] None]
       None"

definition sample_xml :: xml where
  "sample_xml =
     Element ''ECFR'' [] None
       [Element ''DIV1'' [(''N'', str ''1'')] None
          [Element ''HEAD'' [] (Some (str '' Title 1 '')) [] None,
           Element ''DIV3'' [(''N'', str ''I'')] None
             [Element ''HEAD'' [] (Some (str ''Chapter I'')) [] None,
              Element ''DIV4'' [] None
                [Element ''DIV5'' [(''N'', str ''1'')] None
                   [Element ''HEAD'' [] (Some (str ''PART 1'')) [] None,
                    sample_section,
                    Element ''DIV8'' [] None [] None]
                   None]
                None]
             None]
          None]
       None"

definition sample_rows :: "section_row list" where
  "sample_rows =
     [\<lparr>title_number = Some (str ''1''), title_head = Some (str ''Title 1''),
       chapter_number = Some (str ''I''), chapter_head = Some (str ''Chapter I''),
       subchapter_number = None, subchapter_head = Some [],
       part_number = Some (str ''1''), part_head = Some (str ''PART 1''),
       section_number = Some (str ''1.1''), section_title = Some (str ''Scope''),
       body = Some (str ''First  para  text. Second.'')\<rparr>,
      \<lparr>title_number = Some (str ''1''), title_head = Some (str ''Title 1''),
       chapter_number = Some (str ''I''), chapter_head = Some (str ''Chapter I''),
       subchapter_number = None, subchapter_head = Some [],
       part_number = Some (str ''1''), part_head = Some (str ''PART 1''),
       section_number = None, section_title = Some [],
       body = Some []\<rparr>]"

section \<open>Auxiliary notions for the statements and proofs\<close>

text \<open>
  Cleaning in the specification's words, "collapse all whitespace runs to a single space
  and trim": the words of a string are its maximal runs of characters that are not
  whitespace (Python's \<^verbatim>\<open>s.split()\<close>), and the cleaned string is these words with one
  blank between neighbours, nothing before the first and nothing after the last.
\<close>

function split_ws :: "pystr \<Rightarrow> pystr list" where
  "split_ws [] = []"
| "split_ws (c # cs) =
     (if is_space c then split_ws cs
      else (c # takeWhile (\<lambda>x. \<not> is_space x) cs) # split_ws (dropWhile (\<lambda>x. \<not> is_space x) cs))"
  by pat_completeness auto
termination
  by (relation "measure length") (auto simp: le_imp_less_Suc length_dropWhile_le)

definition collapsed_and_trimmed :: "pystr \<Rightarrow> pystr" where
  "collapsed_and_trimmed s = join_sp (split_ws s)"

text \<open>Removal of trailing whitespace alone.\<close>

definition rstrip :: "pystr \<Rightarrow> pystr" where
  "rstrip s = rev (dropWhile is_space (rev s))"

text \<open>
  A string is normalised when each of its whitespace characters is a blank that is not
  followed by another whitespace character.
\<close>

fun norm_ws :: "pystr \<Rightarrow> bool" where
  "norm_ws [] = True"
| "norm_ws [c] = (\<not> is_space c \<or> c = 32)"
| "norm_ws (c # d # cs) =
     ((\<not> is_space c \<or> (c = 32 \<and> \<not> is_space d)) \<and> norm_ws (d # cs))"

text \<open>
  What the constraints of the table \<^verbatim>\<open>agencies\<close> maintain (no two rows with the same
  \<^verbatim>\<open>agency_id\<close>, none with the same \<^verbatim>\<open>slug\<close>), and the row stored under an id.
\<close>

definition agencies_ok :: "agencies_row list \<Rightarrow> bool" where
  "agencies_ok tbl = (distinct (map agency_id_col tbl) \<and> distinct (map slug_col tbl))"


text \<open>
  A row is made from a payload record when each of its text fields is the cleaned field
  of the record and its references are those collected from the record.
\<close>

definition made_from :: "json \<Rightarrow> agency_row \<Rightarrow> bool" where
  "made_from x r =
     (clean_required x ''slug'' = Inr (slug r) \<and>
      clean_required x ''name'' = Inr (name r) \<and>
      clean_optional x ''short_name'' = Inr (short_name r) \<and>
      clean_optional x ''display_name'' = Inr (display_name r) \<and>
      clean_optional x ''sortable_name'' = Inr (sortable_name r) \<and>
      cfr_refs_of x = Inr (cfr_references r))"

section \<open>Properties of clean_text\<close>

lemma dropWhile_hd: "dropWhile P xs = [] \<or> \<not> P (hd (dropWhile P xs))"
  by (induction xs) auto

lemma dropWhile_fixed: "xs = [] \<or> \<not> P (hd xs) \<Longrightarrow> dropWhile P xs = xs"
  by (cases xs) auto

lemma re_sub_ws_lead:
  "xs = [] \<or> \<not> is_space (hd xs) \<Longrightarrow> re_sub_ws xs = [] \<or> \<not> is_space (hd (re_sub_ws xs))"
  by (cases xs) auto

lemma norm_ws_Cons_blank:
  "norm_ws r \<Longrightarrow> r = [] \<or> \<not> is_space (hd r) \<Longrightarrow> norm_ws (32 # r)"
  by (cases r) auto

lemma norm_ws_Cons_other: "norm_ws r \<Longrightarrow> \<not> is_space c \<Longrightarrow> norm_ws (c # r)"
  by (cases r) auto

lemma norm_ws_re_sub: "norm_ws (re_sub_ws s)"
proof (induction s rule: re_sub_ws.induct)
  case 1
  show ?case by simp
next
  case (2 c cs)
  show ?case
  proof (cases "is_space c")
    case True
    let ?r = "re_sub_ws (dropWhile is_space cs)"
    have n: "norm_ws ?r" using 2 True by simp
    have h: "?r = [] \<or> \<not> is_space (hd ?r)"
      by (rule re_sub_ws_lead[OF dropWhile_hd])
    have "re_sub_ws (c # cs) = 32 # ?r" using True by simp
    then show ?thesis using norm_ws_Cons_blank[OF n h] by simp
  next
    case False
    then have n: "norm_ws (re_sub_ws cs)" using 2 by simp
    have "re_sub_ws (c # cs) = c # re_sub_ws cs" using False by simp
    then show ?thesis using norm_ws_Cons_other[OF n False] by simp
  qed
qed

lemma norm_ws_append: "norm_ws (xs @ ys) \<Longrightarrow> norm_ws xs \<and> norm_ws ys"
proof (induction xs rule: norm_ws.induct)
  case 1
  then show ?case by simp
next
  case (2 c)
  then show ?case by (cases ys) auto
next
  case (3 c d cs)
  then show ?case by auto
qed

lemma norm_ws_fixed: "norm_ws s \<Longrightarrow> re_sub_ws s = s"
proof (induction s rule: norm_ws.induct)
  case 1
  show ?case by simp
next
  case (2 c)
  then show ?case by auto
next
  case (3 c d cs)
  then show ?case by auto
qed

lemma rev_dropWhile_split:
  "xs = rev (dropWhile P (rev xs)) @ rev (takeWhile P (rev xs))"
proof -
  have "rev xs = takeWhile P (rev xs) @ dropWhile P (rev xs)" by simp
  then have "rev (rev xs) = rev (takeWhile P (rev xs) @ dropWhile P (rev xs))"
    by (rule arg_cong)
  then show ?thesis by (simp only: rev_rev_ident rev_append)
qed

lemma strip_split:
  "dropWhile is_space s = strip s @ rev (takeWhile is_space (rev (dropWhile is_space s)))"
  unfolding strip_def by (rule rev_dropWhile_split)

lemma norm_ws_strip:
  assumes "norm_ws s"
  shows "norm_ws (strip s)"
proof -
  have "s = takeWhile is_space s @ dropWhile is_space s" by simp
  then have "norm_ws (takeWhile is_space s @ dropWhile is_space s)" using assms by simp
  then have "norm_ws (dropWhile is_space s)" using norm_ws_append by blast
  then have "norm_ws (strip s @ rev (takeWhile is_space (rev (dropWhile is_space s))))"
    using strip_split[of s] by simp
  then show ?thesis using norm_ws_append by blast
qed

lemma strip_no_lead: "strip s = [] \<or> \<not> is_space (hd (strip s))"
proof (cases "strip s = []")
  case True
  then show ?thesis by blast
next
  case False
  let ?d = "dropWhile is_space s"
  have e: "?d = strip s @ rev (takeWhile is_space (rev ?d))" by (rule strip_split)
  have "hd (strip s @ rev (takeWhile is_space (rev ?d))) = hd (strip s)"
    using False by (rule hd_append2)
  then have h: "hd ?d = hd (strip s)" using e by simp
  have "?d \<noteq> []" using e False by (metis append_is_Nil_conv)
  then have "\<not> is_space (hd ?d)" using dropWhile_hd[of is_space s] by blast
  then show ?thesis using h by simp
qed

lemma strip_no_trail: "strip s = [] \<or> \<not> is_space (last (strip s))"
proof (cases "strip s = []")
  case True
  then show ?thesis by blast
next
  case False
  let ?r = "dropWhile is_space (rev (dropWhile is_space s))"
  have s: "strip s = rev ?r" by (simp add: strip_def)
  then have ne: "?r \<noteq> []" using False by auto
  then have "\<not> is_space (hd ?r)"
    using dropWhile_hd[of is_space "rev (dropWhile is_space s)"] by blast
  moreover have "last (rev ?r) = hd ?r" by (rule last_rev)
  ultimately show ?thesis using s by simp
qed

lemma strip_fixed:
  assumes "s = [] \<or> (\<not> is_space (hd s) \<and> \<not> is_space (last s))"
  shows "strip s = s"
proof -
  have 1: "dropWhile is_space s = s" using assms by (intro dropWhile_fixed) blast
  have "rev s = [] \<or> \<not> is_space (hd (rev s))"
    using assms by (cases "s = []") (simp_all add: hd_rev)
  then have 2: "dropWhile is_space (rev s) = rev s" by (rule dropWhile_fixed)
  show ?thesis by (simp only: strip_def 1 2 rev_rev_ident)
qed

lemma strip_idem: "strip (strip s) = strip s"
  using strip_fixed[of "strip s"] strip_no_lead[of s] strip_no_trail[of s] by blast

lemma is_space_32: "is_space 32"
  by (simp add: is_space_def)

lemma strip_rstrip: "strip s = rstrip (dropWhile is_space s)"
  by (simp add: strip_def rstrip_def)

lemma strip_skip: "is_space c \<Longrightarrow> strip (c # s) = strip s"
  by (simp add: strip_def)

lemma strip_dropWhile: "strip (dropWhile is_space s) = strip s"
  by (simp add: strip_def)

lemma re_sub_ws_dropWhile: "dropWhile is_space (re_sub_ws s) = re_sub_ws (dropWhile is_space s)"
proof (cases s)
  case Nil
  then show ?thesis by simp
next
  case (Cons c cs)
  show ?thesis
  proof (cases "is_space c")
    case True
    have "re_sub_ws (dropWhile is_space cs) = [] \<or>
        \<not> is_space (hd (re_sub_ws (dropWhile is_space cs)))"
      by (rule re_sub_ws_lead[OF dropWhile_hd])
    then have "dropWhile is_space (re_sub_ws (dropWhile is_space cs)) =
        re_sub_ws (dropWhile is_space cs)"
      by (rule dropWhile_fixed)
    then show ?thesis using True Cons by (simp add: is_space_def)
  next
    case False
    then show ?thesis using Cons by simp
  qed
qed

lemma re_sub_ws_word:
  "\<forall>x\<in>set xs. \<not> is_space x \<Longrightarrow> re_sub_ws (xs @ ys) = xs @ re_sub_ws ys"
  by (induction xs) simp_all

lemma re_sub_ws_all_space:
  "(\<forall>x\<in>set (re_sub_ws s). is_space x) = (\<forall>x\<in>set s. is_space x)"
proof (induction s rule: re_sub_ws.induct)
  case 1
  show ?case by simp
next
  case (2 c cs)
  show ?case
  proof (cases "is_space c")
    case True
    have "(\<forall>x\<in>set (dropWhile is_space cs). is_space x) = (\<forall>x\<in>set cs. is_space x)"
      by (induction cs) auto
    then show ?thesis using True 2 by (simp add: is_space_def)
  next
    case False
    then show ?thesis by simp
  qed
qed

lemma rstrip_append:
  "rstrip (a @ b) = (if \<forall>x\<in>set b. is_space x then rstrip a else a @ rstrip b)"
  by (simp add: rstrip_def dropWhile_append)

lemma rstrip_word: "\<forall>x\<in>set w. \<not> is_space x \<Longrightarrow> rstrip w = w"
proof -
  assume a: "\<forall>x\<in>set w. \<not> is_space x"
  have "rev w = [] \<or> \<not> is_space (hd (rev w))"
    using a by (cases "rev w") (auto simp: hd_rev dest: last_in_set)
  then have "dropWhile is_space (rev w) = rev w" by (rule dropWhile_fixed)
  then show ?thesis by (simp add: rstrip_def)
qed

lemma split_ws_dropWhile: "split_ws (dropWhile is_space s) = split_ws s"
  by (induction s) simp_all

lemma split_ws_Nil: "(split_ws s = []) = (\<forall>x\<in>set s. is_space x)"
  by (induction s) simp_all

lemma join_sp_Cons: "join_sp (w # ws) = (if ws = [] then w else w @ 32 # join_sp ws)"
  by (cases ws) simp_all

lemma strip_re_sub_ws: "strip (re_sub_ws s) = join_sp (split_ws s)"
proof (induction s rule: split_ws.induct)
  case 1
  show ?case by (simp add: strip_def)
next
  case (2 c cs)
  show ?case
  proof (cases "is_space c")
    case True
    have "strip (re_sub_ws (c # cs)) = strip (re_sub_ws (dropWhile is_space cs))"
      using True by (simp add: strip_skip is_space_def)
    also have "\<dots> = strip (dropWhile is_space (re_sub_ws cs))"
      by (simp only: re_sub_ws_dropWhile)
    also have "\<dots> = strip (re_sub_ws cs)" by (rule strip_dropWhile)
    finally show ?thesis using True 2 by simp
  next
    case False
    let ?w = "c # takeWhile (\<lambda>x. \<not> is_space x) cs"
    let ?r = "dropWhile (\<lambda>x. \<not> is_space x) cs"
    let ?x = "re_sub_ws ?r"
    have w: "\<forall>x\<in>set ?w. \<not> is_space x" using False by (auto dest: set_takeWhileD)
    have s: "c # cs = ?w @ ?r" by simp
    have rs: "re_sub_ws (c # cs) = ?w @ ?x"
      using re_sub_ws_word[OF w, of ?r] by (simp only: s[symmetric])
    have ih: "strip ?x = join_sp (split_ws ?r)" using 2 False by simp
    have sp: "split_ws (c # cs) = ?w # split_ws ?r" using False by simp
    have lead: "dropWhile is_space (?w @ ?x) = ?w @ ?x" using False by simp
    have st: "strip (?w @ ?x) = rstrip (?w @ ?x)" by (simp only: strip_rstrip lead)
    show ?thesis
    proof (cases "\<forall>x\<in>set ?r. is_space x")
      case True
      have allx: "\<forall>x\<in>set ?x. is_space x" by (rule iffD2[OF re_sub_ws_all_space True])
      have "rstrip (?w @ ?x) = rstrip ?w" by (rule trans[OF rstrip_append if_P[OF allx]])
      also have "\<dots> = ?w" by (rule rstrip_word[OF w])
      finally have "strip (re_sub_ws (c # cs)) = ?w" by (simp only: rs st)
      moreover have "split_ws ?r = []" by (rule iffD2[OF split_ws_Nil True])
      ultimately show ?thesis by (simp only: sp join_sp.simps)
    next
      case nall: False
      have nx: "\<not> (\<forall>x\<in>set ?x. is_space x)"
        using nall iffD1[OF re_sub_ws_all_space, of ?r] by blast
      have ne: "split_ws ?r \<noteq> []" using nall iffD1[OF split_ws_Nil, of ?r] by blast
      obtain d ds where r: "?r = d # ds" using nall by (cases ?r) auto
      have d: "is_space d" using dropWhile_hd[of "\<lambda>x. \<not> is_space x" cs] r by simp
      let ?y = "re_sub_ws (dropWhile is_space ds)"
      have x: "?x = 32 # ?y" using d r by simp
      have ny: "\<not> (\<forall>x\<in>set ?y. is_space x)"
      proof
        assume "\<forall>x\<in>set ?y. is_space x"
        then have "\<forall>x\<in>set (32 # ?y). is_space x" using is_space_32 by simp
        then show False using nx by (simp only: x)
      qed
      have "?y = [] \<or> \<not> is_space (hd ?y)" by (rule re_sub_ws_lead[OF dropWhile_hd])
      then have "dropWhile is_space ?y = ?y" by (rule dropWhile_fixed)
      then have sy: "strip ?y = rstrip ?y" by (simp only: strip_rstrip)
      have "strip ?x = strip ?y" using x by (simp add: strip_skip is_space_def)
      then have jy: "rstrip ?y = join_sp (split_ws ?r)" using ih sy by simp
      have a1: "rstrip (?w @ ?x) = ?w @ rstrip ?x"
        by (rule trans[OF rstrip_append if_not_P[OF nx]])
      have "rstrip ([32] @ ?y) = [32] @ rstrip ?y"
        by (rule trans[OF rstrip_append if_not_P[OF ny]])
      then have a2: "rstrip ?x = 32 # rstrip ?y" by (simp only: x append_Cons append_Nil)
      have "strip (re_sub_ws (c # cs)) = ?w @ 32 # join_sp (split_ws ?r)"
        by (simp only: rs st a1 a2 jy)
      then show ?thesis using ne by (simp only: sp join_sp_Cons if_False)
    qed
  qed
qed

lemma clean_text_str_fixed:
  "\<exists>t. clean_text (JStr s) = Inr t \<and> clean_text (JStr t) = Inr t"
proof (cases "s = []")
  case True
  then show ?thesis by simp
next
  case False
  let ?t = "strip (re_sub_ws s)"
  have n: "norm_ws ?t" by (rule norm_ws_strip[OF norm_ws_re_sub])
  have "re_sub_ws ?t = ?t" by (rule norm_ws_fixed[OF n])
  then have "strip (re_sub_ws ?t) = ?t" by (simp add: strip_idem)
  then show ?thesis using False by auto
qed

text \<open>
  Claim C7. Cleaning a string always succeeds, and cleaning the result again returns it
  unchanged. The result collapses every run of whitespace to a single blank and trims:
  it is the words of the string joined by single blanks; it is empty or neither starts
  nor ends with whitespace; and each whitespace character in it is a blank that is not
  followed by another whitespace character. The string \<^verbatim>\<open>a   b\n c\<close> (three blanks,
  then a line feed and a blank) is cleaned to \<^verbatim>\<open>a b c\<close>, and \<^verbatim>\<open>None\<close> is cleaned to
  the empty string.
\<close>

theorem clean_text_idempotent:
  "(\<exists>t. clean_text (JStr s) = Inr t \<and> clean_text (JStr t) = Inr t \<and>
        t = collapsed_and_trimmed s \<and>
        (t = [] \<or> (\<not> is_space (hd t) \<and> \<not> is_space (last t))) \<and>
        norm_ws t) \<and>
   clean_text (JStr (str ''a   b'' @ [10] @ str '' c'')) = Inr (str ''a b c'') \<and>
   clean_text JNull = Inr []"
proof (intro conjI)
  let ?t = "strip (re_sub_ws s)"
  have c: "clean_text (JStr s) = Inr ?t" by (cases "s = []") (simp_all add: strip_def)
  from clean_text_str_fixed[of s] have f: "clean_text (JStr ?t) = Inr ?t"
    by (simp only: c sum.inject) blast
  have w: "?t = collapsed_and_trimmed s"
    by (simp only: collapsed_and_trimmed_def strip_re_sub_ws)
  have e: "?t = [] \<or> (\<not> is_space (hd ?t) \<and> \<not> is_space (last ?t))"
    using strip_no_lead[of "re_sub_ws s"] strip_no_trail[of "re_sub_ws s"] by blast
  have n: "norm_ws ?t" by (rule norm_ws_strip[OF norm_ws_re_sub])
  show "\<exists>t. clean_text (JStr s) = Inr t \<and> clean_text (JStr t) = Inr t \<and>
        t = collapsed_and_trimmed s \<and>
        (t = [] \<or> (\<not> is_space (hd t) \<and> \<not> is_space (last t))) \<and>
        norm_ws t"
    using c f w e n by blast
  show "clean_text (JStr (str ''a   b'' @ [10] @ str '' c'')) = Inr (str ''a b c'')"
    by (simp add: strip_def is_space_def str_def)
  show "clean_text JNull = Inr []"
    by simp
qed

theorem clean_text_idempotent_witness:
  "clean_text (JStr (str ''  a  b '')) = Inr (str ''a b'') \<and>
   clean_text (JStr (str ''a b'')) = Inr (str ''a b'') \<and>
   collapsed_and_trimmed (str ''  a  b '') = str ''a b''"
proof -
  have v: "collapsed_and_trimmed (str ''  a  b '') = str ''a b''"
    by (simp add: collapsed_and_trimmed_def str_def is_space_def)
  from clean_text_idempotent[of "str ''  a  b ''"] obtain t where
    t: "clean_text (JStr (str ''  a  b '')) = Inr t" "clean_text (JStr t) = Inr t"
       "t = collapsed_and_trimmed (str ''  a  b '')"
    by blast
  show ?thesis using t v by simp
qed

section \<open>Properties of the configuration and of the extractor\<close>

lemma paramBuilder_other:
  "service \<noteq> ''admin'' \<Longrightarrow> service \<noteq> ''versioner'' \<Longrightarrow>
   paramBuilder service user_params = Inr [(''service'', service)]"
  by (simp add: paramBuilder_def)

text \<open>
  Claim C4, at the service name \<^verbatim>\<open>foo\<close>: the builder raises nothing and returns the
  dictionary that holds the service name alone.
\<close>

theorem paramBuilder_unsupported_returns:
  "paramBuilder ''foo'' [] = Inr [(''service'', ''foo'')]"
  by (simp add: paramBuilder_def)

lemma extract_admin_failure:
  assumes "map_of params ''service'' = Some ''admin''"
    and "http (fmt (map_of params ''base_url'') @ ''/'' @ fmt (map_of params ''endpoint'')) = r"
    and "r = RequestFailed \<or> (\<exists>st txt d. r = Response st txt d \<and> 400 \<le> st \<and> st < 600)"
  shows "extract_data params http = Inl (UnboundLocalError ''retrieved_data'')"
proof -
  have "params \<noteq> []" using assms(1) by auto
  then show ?thesis using assms by (auto simp: extract_data_def)
qed

text \<open>
  Claim C5, at the admin parameters with a request that fails in transport: the call ends
  in the \<^verbatim>\<open>UnboundLocalError\<close> of the local variable \<^verbatim>\<open>retrieved_data\<close>.
\<close>

theorem extract_admin_network_failure:
  "extract_data
     [(''service'', ''admin''), (''base_url'', ''https://www.ecfr.gov/''),
      (''endpoint'', ''api/admin/v1/agencies.json'')]
     (\<lambda>url. RequestFailed)
   = Inl (UnboundLocalError ''retrieved_data'')"
  by (simp add: extract_data_def)

section \<open>Properties of the admin transform\<close>

lemma bind_res_Inr: "bind_res m f = Inr y \<Longrightarrow> \<exists>v. m = Inr v \<and> f v = Inr y"
  by (cases m) (simp_all add: bind_res_def)

lemma bind_res_simps [simp]: "bind_res (Inr v) f = f v" "bind_res (Inl e) f = Inl e"
  by (simp_all add: bind_res_def)

lemma child_step_Inr:
  assumes "child_step s c st = Inr st'"
  shows "\<exists>r. made_from c r \<and> agency_id r = next_id st \<and> parent_id r = slug_to_id st s \<and>
             parent_id r \<noteq> None \<and>
             st' = \<lparr>rows = rows st @ [r], slug_to_id = (slug_to_id st)(slug r \<mapsto> next_id st),
                    next_id = next_id st + 1\<rparr>"
  using assms unfolding child_step_def made_from_def
  by (auto dest!: bind_res_Inr split: option.splits)

lemma agency_step_Inr:
  assumes "agency_step a st = Inr st'"
  shows "\<exists>r kids. made_from a r \<and> agency_id r = next_id st \<and> parent_id r = None \<and>
             bind_res (py_get a ''children'' (JArr [])) py_iter = Inr kids \<and>
             children_loop (slug r) kids
               \<lparr>rows = rows st @ [r], slug_to_id = (slug_to_id st)(slug r \<mapsto> next_id st),
                next_id = next_id st + 1\<rparr> = Inr st'"
proof -
  from assms obtain sl refs n sn dn son cv kids where
    f: "clean_required a ''slug'' = Inr sl" "cfr_refs_of a = Inr refs"
       "clean_required a ''name'' = Inr n" "clean_optional a ''short_name'' = Inr sn"
       "clean_optional a ''display_name'' = Inr dn" "clean_optional a ''sortable_name'' = Inr son"
    and k: "py_get a ''children'' (JArr []) = Inr cv" "py_iter cv = Inr kids"
    and l: "children_loop sl kids
         \<lparr>rows = rows st @
            [\<lparr>agency_id = next_id st, name = n, short_name = sn, display_name = dn,
              sortable_name = son, slug = sl, parent_id = None, cfr_references = refs\<rparr>],
          slug_to_id = (slug_to_id st)(sl \<mapsto> next_id st),
          next_id = next_id st + 1\<rparr> = Inr st'"
    unfolding agency_step_def by (auto dest!: bind_res_Inr)
  let ?r = "\<lparr>agency_id = next_id st, name = n, short_name = sn, display_name = dn,
              sortable_name = son, slug = sl, parent_id = None, cfr_references = refs\<rparr>"
  have "made_from a ?r" using f by (simp add: made_from_def)
  moreover have "bind_res (py_get a ''children'' (JArr [])) py_iter = Inr kids"
    using k by simp
  ultimately show ?thesis using l by (intro exI[of _ ?r] exI[of _ kids]) simp
qed

lemma upto_shift: "[n .. n + int (Suc k) - 1] = n # [n + 1 .. n + 1 + int k - 1]"
  by (simp add: upto_rec1)

lemma children_loop_Inr:
  "children_loop s kids st = Inr st' \<Longrightarrow>
   \<exists>new. rows st' = rows st @ new \<and> next_id st' = next_id st + int (length kids) \<and>
         list_all2 made_from kids new \<and>
         map agency_id new = [next_id st .. next_id st + int (length kids) - 1] \<and>
         list_all (\<lambda>r. parent_id r \<noteq> None) new"
proof (induction kids arbitrary: st)
  case Nil
  then show ?case by simp
next
  case (Cons c kids)
  from Cons.prems obtain st1 where
    a: "child_step s c st = Inr st1" and b: "children_loop s kids st1 = Inr st'"
    by (auto dest!: bind_res_Inr)
  from child_step_Inr[OF a] obtain r where
    r: "made_from c r" "agency_id r = next_id st" "parent_id r \<noteq> None"
      "rows st1 = rows st @ [r]" "next_id st1 = next_id st + 1"
    by force
  from Cons.IH[OF b] obtain new where
    n: "rows st' = rows st1 @ new" "next_id st' = next_id st1 + int (length kids)"
      "list_all2 made_from kids new"
      "map agency_id new = [next_id st1 .. next_id st1 + int (length kids) - 1]"
      "list_all (\<lambda>r. parent_id r \<noteq> None) new"
    by auto
  have "map agency_id (r # new) = [next_id st .. next_id st + int (length (c # kids)) - 1]"
    using r n upto_shift[of "next_id st" "length kids"] by simp
  then show ?case using r n by (intro exI[of _ "r # new"]) simp
qed

lemma upto_append_int:
  "[n .. n + int a + int b - 1] = [n .. n + int a - 1] @ [n + int a .. n + int a + int b - 1]"
proof (cases a)
  case 0
  then show ?thesis by simp
next
  case (Suc k)
  have "[n .. n + int a + int b - 1] = [n .. n + int a - 1] @ [(n + int a - 1) + 1 .. n + int a + int b - 1]"
    by (rule upto_split2) (simp_all add: Suc)
  then show ?thesis by simp
qed

lemma upto_append_len:
  assumes "map f xs = [n .. n + int (length xs) - 1]"
    and "map f ys = [n + int (length xs) .. n + int (length xs) + int (length ys) - 1]"
  shows "map f (xs @ ys) = [n .. n + int (length (xs @ ys)) - 1]"
proof -
  have e: "n + int (length (xs @ ys)) - 1 = n + int (length xs) + int (length ys) - 1" by simp
  have "map f (xs @ ys) =
      [n .. n + int (length xs) - 1] @
      [n + int (length xs) .. n + int (length xs) + int (length ys) - 1]"
    using assms by simp
  also have "\<dots> = [n .. n + int (length xs) + int (length ys) - 1]"
    by (rule upto_append_int[symmetric])
  finally show ?thesis by (simp only: e)
qed

lemma agencies_loop_Inr:
  "agencies_loop ags st = Inr st' \<Longrightarrow>
   \<exists>new. rows st' = rows st @ new \<and>
         list_all2 made_from (concat (map (\<lambda>a. a # children_of a) ags)) new \<and>
         map agency_id new = [next_id st .. next_id st + int (length new) - 1] \<and>
         next_id st' = next_id st + int (length new)"
proof (induction ags arbitrary: st)
  case Nil
  then show ?case by simp
next
  case (Cons a ags)
  from Cons.prems obtain st1 where
    a: "agency_step a st = Inr st1" and b: "agencies_loop ags st1 = Inr st'"
    by (auto dest!: bind_res_Inr)
  from agency_step_Inr[OF a] obtain r kids where
    r: "made_from a r" "agency_id r = next_id st"
    and k: "bind_res (py_get a ''children'' (JArr [])) py_iter = Inr kids"
    and l: "children_loop (slug r) kids
               \<lparr>rows = rows st @ [r], slug_to_id = (slug_to_id st)(slug r \<mapsto> next_id st),
                next_id = next_id st + 1\<rparr> = Inr st1"
    by auto
  have kids: "children_of a = kids" using k by (simp add: children_of_def items_of_def)
  from children_loop_Inr[OF l] obtain cnew where
    c: "rows st1 = rows st @ [r] @ cnew" "next_id st1 = next_id st + 1 + int (length kids)"
       "list_all2 made_from kids cnew"
       "map agency_id cnew = [next_id st + 1 .. next_id st + 1 + int (length kids) - 1]"
    by auto
  have len: "length cnew = length kids" using c(3) by (simp add: list_all2_lengthD)
  have ids1: "map agency_id (r # cnew) = [next_id st .. next_id st + int (length (r # cnew)) - 1]"
    using r c(4) len upto_shift[of "next_id st" "length kids"] by simp
  from Cons.IH[OF b] obtain new where
    n: "rows st' = rows st1 @ new"
       "list_all2 made_from (concat (map (\<lambda>a. a # children_of a) ags)) new"
       "map agency_id new = [next_id st1 .. next_id st1 + int (length new) - 1]"
       "next_id st' = next_id st1 + int (length new)"
    by auto
  have n1: "next_id st1 = next_id st + int (length (r # cnew))" using c(2) len by simp
  have ids: "map agency_id ((r # cnew) @ new) = [next_id st .. next_id st + int (length ((r # cnew) @ new)) - 1]"
    using upto_append_len[OF ids1] n(3) n1 by simp
  have la: "list_all2 made_from (concat (map (\<lambda>a. a # children_of a) (a # ags))) ((r # cnew) @ new)"
    using r(1) c(3) n(2) kids by (simp add: list_all2_appendI)
  show ?case
    using ids la n(1) n(4) c(1) n1 by (intro exI[of _ "(r # cnew) @ new"]) simp
qed


lemma ref_triple_Inr: "ref_triple x = Inr y \<Longrightarrow> y = ref_as_given x"
  by (cases x) (auto simp: ref_triple_def ref_as_given_def split: option.splits)

lemma ref_triples_Inr: "ref_triples xs = Inr ys \<Longrightarrow> ys = map ref_as_given xs"
proof (induction xs arbitrary: ys)
  case Nil
  then show ?case by simp
next
  case (Cons x xs)
  then show ?case by (auto dest!: bind_res_Inr dest: ref_triple_Inr)
qed

lemma cfr_refs_of_Inr:
  "cfr_refs_of x = Inr refs \<Longrightarrow> refs = map ref_as_given (items_of x ''cfr_references'')"
  unfolding cfr_refs_of_def items_of_def
  by (auto dest!: bind_res_Inr dest: ref_triples_Inr)

lemma transform_admin_Inr:
  assumes "transform_admin_api params p = Inr rs"
  shows "list_all2 made_from (traversal p) rs \<and> map agency_id rs = [1 .. int (length rs)]"
proof -
  from assms obtain av ags st where
    a: "py_get p ''agencies'' (JArr []) = Inr av" "py_iter av = Inr ags"
    and l: "agencies_loop ags \<lparr>rows = [], slug_to_id = Map.empty, next_id = 1\<rparr> = Inr st"
    and r: "rs = rows st"
    unfolding transform_admin_api_def by (auto dest!: bind_res_Inr split: if_splits)
  have t: "traversal p = concat (map (\<lambda>a. a # children_of a) ags)"
    using a by (simp add: traversal_def top_level_def items_of_def)
  from agencies_loop_Inr[OF l] show ?thesis using r t by auto
qed

lemma length_concat_cons:
  "length (concat (map (\<lambda>a. a # f a) xs)) = length xs + sum_list (map (\<lambda>a. length (f a)) xs)"
  by (induction xs) simp_all

lemma length_traversal:
  "length (traversal p) = length (top_level p) + sum_list (map (\<lambda>a. length (children_of a)) (top_level p))"
  unfolding traversal_def by (rule length_concat_cons)

lemma text_value_clean: "text_value v \<Longrightarrow> \<exists>s. clean_text v = Inr s"
  by (cases v) auto

lemma req_text_clean: "req_text d k \<Longrightarrow> \<exists>s. clean_required (JObj d) k = Inr s"
  by (auto simp: req_text_def clean_required_def dest: text_value_clean split: option.splits)

lemma opt_text_clean: "opt_text d k \<Longrightarrow> \<exists>s. clean_optional (JObj d) k = Inr s"
  by (auto simp: opt_text_def clean_optional_def dest: text_value_clean split: option.splits)

lemma ref_triples_total: "list_all is_obj xs \<Longrightarrow> \<exists>ys. ref_triples xs = Inr ys"
proof (induction xs)
  case Nil
  then show ?case by simp
next
  case (Cons x xs)
  then obtain ys where "ref_triples xs = Inr ys" by auto
  moreover obtain d where "x = JObj d" using Cons.prems by (cases x) auto
  ultimately show ?case by (auto simp: ref_triple_def split: option.splits)
qed

lemma refs_total: "opt_list_of is_obj d ''cfr_references'' \<Longrightarrow> \<exists>refs. cfr_refs_of (JObj d) = Inr refs"
  by (auto simp: opt_list_of_def cfr_refs_of_def dest: ref_triples_total split: option.splits json.splits)

lemma child_step_total:
  assumes "record_ok c" and "slug_to_id st s \<noteq> None"
  shows "\<exists>st'. child_step s c st = Inr st' \<and> slug_to_id st' s \<noteq> None"
proof -
  obtain d where d: "c = JObj d" using assms(1) by (cases c) auto
  from assms(1) d obtain sl n sn dn son refs where
    "clean_required c ''slug'' = Inr sl" "clean_required c ''name'' = Inr n"
    "clean_optional c ''short_name'' = Inr sn" "clean_optional c ''display_name'' = Inr dn"
    "clean_optional c ''sortable_name'' = Inr son" "cfr_refs_of c = Inr refs"
    using req_text_clean[of d "''slug''"] req_text_clean[of d "''name''"]
      opt_text_clean[of d "''short_name''"] opt_text_clean[of d "''display_name''"]
      opt_text_clean[of d "''sortable_name''"] refs_total[of d]
    by auto
  then show ?thesis using assms(2) by (auto simp: child_step_def)
qed

lemma children_loop_total:
  "list_all record_ok kids \<Longrightarrow> slug_to_id st s \<noteq> None \<Longrightarrow> \<exists>st'. children_loop s kids st = Inr st'"
proof (induction kids arbitrary: st)
  case Nil
  then show ?case by simp
next
  case (Cons c kids)
  from child_step_total[of c st s] Cons.prems obtain st1 where
    "child_step s c st = Inr st1" "slug_to_id st1 s \<noteq> None" by auto
  then show ?case using Cons.IH[of st1] Cons.prems by auto
qed

lemma children_total:
  "opt_list_of record_ok d ''children'' \<Longrightarrow>
   \<exists>kids. bind_res (py_get (JObj d) ''children'' (JArr [])) py_iter = Inr kids \<and> list_all record_ok kids"
  by (auto simp: opt_list_of_def split: option.splits json.splits)

lemma agency_step_total:
  assumes "agency_ok a"
  shows "\<exists>st'. agency_step a st = Inr st'"
proof -
  obtain d where d: "a = JObj d" using assms by (cases a) auto
  from assms d obtain sl n sn dn son refs where f:
    "clean_required a ''slug'' = Inr sl" "clean_required a ''name'' = Inr n"
    "clean_optional a ''short_name'' = Inr sn" "clean_optional a ''display_name'' = Inr dn"
    "clean_optional a ''sortable_name'' = Inr son" "cfr_refs_of a = Inr refs"
    using req_text_clean[of d "''slug''"] req_text_clean[of d "''name''"]
      opt_text_clean[of d "''short_name''"] opt_text_clean[of d "''display_name''"]
      opt_text_clean[of d "''sortable_name''"] refs_total[of d]
    by auto
  from assms d obtain kids where
    k: "bind_res (py_get a ''children'' (JArr [])) py_iter = Inr kids" "list_all record_ok kids"
    using children_total[of d] by auto
  let ?st = "\<lparr>rows = rows st @
              [\<lparr>agency_id = next_id st, name = n, short_name = sn, display_name = dn,
                sortable_name = son, slug = sl, parent_id = None,
                cfr_references = refs\<rparr>],
        slug_to_id = (slug_to_id st)(sl \<mapsto> next_id st),
        next_id = next_id st + 1\<rparr>"
  have "slug_to_id ?st sl \<noteq> None" by simp
  from children_loop_total[OF k(2) this] obtain st' where "children_loop sl kids ?st = Inr st'" ..
  moreover from k(1) obtain cv where "py_get a ''children'' (JArr []) = Inr cv" "py_iter cv = Inr kids"
    by (auto dest!: bind_res_Inr)
  ultimately show ?thesis using f by (auto simp: agency_step_def)
qed

lemma agencies_loop_total:
  "list_all agency_ok ags \<Longrightarrow> \<exists>st'. agencies_loop ags st = Inr st'"
proof (induction ags arbitrary: st)
  case Nil
  then show ?case by simp
next
  case (Cons a ags)
  from agency_step_total[of a st] Cons.prems obtain st1 where "agency_step a st = Inr st1" by auto
  then show ?case using Cons.IH[of st1] Cons.prems by auto
qed

lemma transform_admin_total:
  assumes "map_of params ''service'' = Some ''admin''" and "payload_ok p"
  shows "\<exists>rs. transform_admin_api params p = Inr rs"
proof -
  obtain d where d: "p = JObj d" using assms(2) by (cases p) auto
  from assms(2) d obtain ags where
    a: "bind_res (py_get p ''agencies'' (JArr [])) py_iter = Inr ags" "list_all agency_ok ags"
    by (auto simp: opt_list_of_def split: option.splits json.splits)
  from agencies_loop_total[OF a(2)] obtain st where
    "agencies_loop ags \<lparr>rows = [], slug_to_id = Map.empty, next_id = 1\<rparr> = Inr st" ..
  moreover from a(1) obtain av where "py_get p ''agencies'' (JArr []) = Inr av" "py_iter av = Inr ags"
    by (auto dest!: bind_res_Inr)
  ultimately show ?thesis using assms(1) by (auto simp: transform_admin_api_def service_of_def)
qed

lemmas admin_eval =
  transform_admin_api_def service_of_def agency_step_def child_step_def
  clean_required_def clean_optional_def cfr_refs_of_def ref_triple_def strip_def is_space_def
  str_def

text \<open>
  Claim C1. The admin transform of a payload in the documented shape returns rows, as
  many as there are top-level agencies plus all their children; their \<open>agency_id\<close>s
  in emission order are 1, 2, and so on up to that number; and the rows follow the
  traversal of the payload, each agency followed by its children in payload order, then
  the next agency.
\<close>

theorem admin_ids_sequential:
  assumes "map_of params ''service'' = Some ''admin''" and "payload_ok p"
  shows "\<exists>rs. transform_admin_api params p = Inr rs \<and>
           length rs = length (top_level p) + sum_list (map (\<lambda>a. length (children_of a)) (top_level p)) \<and>
           map agency_id rs = [1 .. int (length rs)] \<and>
           list_all2 made_from (traversal p) rs"
proof -
  from transform_admin_total[OF assms] obtain rs where r: "transform_admin_api params p = Inr rs" ..
  from transform_admin_Inr[OF r] have
    m: "list_all2 made_from (traversal p) rs" and i: "map agency_id rs = [1 .. int (length rs)]"
    by simp_all
  have "length rs = length (traversal p)" using m by (simp add: list_all2_lengthD)
  then have "length rs = length (top_level p) + sum_list (map (\<lambda>a. length (children_of a)) (top_level p))"
    by (simp add: length_traversal)
  then show ?thesis using r m i by blast
qed

theorem admin_ids_sequential_witness:
  "map_of admin_params ''service'' = Some ''admin'' \<and> payload_ok doe_payload \<and>
   (\<exists>rs. transform_admin_api admin_params doe_payload = Inr rs \<and> length rs = 2 \<and>
      map agency_id rs = [1, 2] \<and> map slug rs = [str ''doe'', str ''so''])"
proof -
  have h1: "map_of admin_params ''service'' = Some ''admin''" by (simp add: admin_params_def)
  have h2: "payload_ok doe_payload"
    by (simp add: doe_payload_def opt_list_of_def req_text_def opt_text_def)
  from admin_ids_sequential[OF h1 h2] obtain rs where
    r: "transform_admin_api admin_params doe_payload = Inr rs"
    and i: "map agency_id rs = [1 .. int (length rs)]" by blast
  have e: "transform_admin_api admin_params doe_payload =
      Inr [\<lparr>agency_id = 1, name = str ''Department Of Examples'', short_name = str ''DOE'',
            display_name = str ''DOE'', sortable_name = str ''doe'', slug = str ''doe'', parent_id = None,
            cfr_references = [\<lparr>ref_title = JStr (str ''1''), ref_chapter = JStr (str ''I''), ref_part = JStr []\<rparr>]\<rparr>,
           \<lparr>agency_id = 2, name = str ''Sub Office'', short_name = str ''SO'',
            display_name = str ''SO'', sortable_name = str ''so'', slug = str ''so'', parent_id = Some 1,
            cfr_references = []\<rparr>]"
    by (simp add: admin_params_def doe_payload_def admin_eval)
  have l: "length rs = 2" and s: "map slug rs = [str ''doe'', str ''so'']" using r e by auto
  have "[1 .. int (length rs)] = [1, 2]" using l by (simp add: upto_rec1)
  then show ?thesis using h1 h2 r i l s by auto
qed

lemma list_all2_map_eq:
  "list_all2 P xs ys \<Longrightarrow> (\<And>x y. P x y \<Longrightarrow> f y = g x) \<Longrightarrow> map f ys = map g xs"
  by (induction rule: list_all2_induct) auto

text \<open>
  Claim C9. Whenever the admin transform returns rows, the references of each row are
  the \<^verbatim>\<open>cfr_references\<close> entries of the agency or child it was made from, in order,
  each as the triple of its \<^verbatim>\<open>title\<close>, \<^verbatim>\<open>chapter\<close> and \<^verbatim>\<open>part\<close> values exactly as
  the payload has them (a missing key read as \<^verbatim>\<open>None\<close>); no cleaning is applied.
\<close>

theorem admin_refs_passed_through:
  assumes "transform_admin_api params p = Inr rs"
  shows "map cfr_references rs =
         map (\<lambda>x. map ref_as_given (items_of x ''cfr_references'')) (traversal p)"
proof -
  from transform_admin_Inr[OF assms] have "list_all2 made_from (traversal p) rs" by simp
  then show ?thesis
    by (rule list_all2_map_eq) (simp add: made_from_def cfr_refs_of_Inr)
qed

theorem admin_refs_passed_through_witness:
  "transform_admin_api admin_params spaced_refs_payload =
     Inr [\<lparr>agency_id = 1, name = str ''A'', short_name = [], display_name = [], sortable_name = [],
           slug = str ''a'', parent_id = None,
           cfr_references = [\<lparr>ref_title = JNum 7, ref_chapter = JStr (str '' III  ''), ref_part = JNull\<rparr>]\<rparr>] \<and>
   map (\<lambda>x. map ref_as_given (items_of x ''cfr_references'')) (traversal spaced_refs_payload) =
     [[\<lparr>ref_title = JNum 7, ref_chapter = JStr (str '' III  ''), ref_part = JNull\<rparr>]]"
proof -
  have e: "transform_admin_api admin_params spaced_refs_payload =
     Inr [\<lparr>agency_id = 1, name = str ''A'', short_name = [], display_name = [], sortable_name = [],
           slug = str ''a'', parent_id = None,
           cfr_references = [\<lparr>ref_title = JNum 7, ref_chapter = JStr (str '' III  ''), ref_part = JNull\<rparr>]\<rparr>]"
    by (simp add: admin_params_def spaced_refs_payload_def admin_eval)
  from admin_refs_passed_through[OF e] show ?thesis using e by simp
qed

text \<open>
  Parent links. A row has no parent exactly when it comes from a top-level entry; and
  when no agency shares its slug with one of its children, every child row carries the
  id of its enclosing agency.
\<close>

lemma children_loop_parents:
  "children_loop s kids st = Inr st' \<Longrightarrow> slug_to_id st s = Some pid \<Longrightarrow>
   list_all (\<lambda>c. clean_required c ''slug'' \<noteq> Inr s) kids \<Longrightarrow>
   \<exists>new. rows st' = rows st @ new \<and> map parent_id new = replicate (length kids) (Some pid)"
proof (induction kids arbitrary: st)
  case Nil
  then show ?case by simp
next
  case (Cons c kids)
  from Cons.prems(1) obtain st1 where
    a: "child_step s c st = Inr st1" and b: "children_loop s kids st1 = Inr st'"
    by (auto dest!: bind_res_Inr)
  from child_step_Inr[OF a] obtain r where
    r: "made_from c r" "parent_id r = slug_to_id st s"
      "st1 = \<lparr>rows = rows st @ [r], slug_to_id = (slug_to_id st)(slug r \<mapsto> next_id st),
              next_id = next_id st + 1\<rparr>"
    by blast
  have "clean_required c ''slug'' = Inr (slug r)" using r(1) by (simp add: made_from_def)
  then have "slug r \<noteq> s" using Cons.prems(3) by auto
  then have k: "slug_to_id st1 s = Some pid" using r(3) Cons.prems(2) by simp
  have "list_all (\<lambda>c. clean_required c ''slug'' \<noteq> Inr s) kids" using Cons.prems(3) by simp
  from Cons.IH[OF b k this] obtain new where
    n: "rows st' = rows st1 @ new" "map parent_id new = replicate (length kids) (Some pid)" by blast
  have "rows st' = rows st @ (r # new)" using n(1) r(3) by simp
  moreover have "map parent_id (r # new) = replicate (length (c # kids)) (Some pid)"
    using n(2) r(2) Cons.prems(2) by simp
  ultimately show ?case by blast
qed

lemma agencies_loop_parents:
  "agencies_loop ags st = Inr st' \<Longrightarrow> list_all no_shared_slug ags \<Longrightarrow>
   \<exists>new. rows st' = rows st @ new \<and> map parent_id new = expected_parents ags (next_id st)"
proof (induction ags arbitrary: st)
  case Nil
  then show ?case by simp
next
  case (Cons a ags)
  from Cons.prems(1) obtain st1 where
    a: "agency_step a st = Inr st1" and b: "agencies_loop ags st1 = Inr st'"
    by (auto dest!: bind_res_Inr)
  from agency_step_Inr[OF a] obtain r kids where
    r: "made_from a r" "parent_id r = None"
    and k: "bind_res (py_get a ''children'' (JArr [])) py_iter = Inr kids"
    and l: "children_loop (slug r) kids
               \<lparr>rows = rows st @ [r], slug_to_id = (slug_to_id st)(slug r \<mapsto> next_id st),
                next_id = next_id st + 1\<rparr> = Inr st1"
    by blast
  let ?st0 = "\<lparr>rows = rows st @ [r], slug_to_id = (slug_to_id st)(slug r \<mapsto> next_id st),
                next_id = next_id st + 1\<rparr>"
  have kids: "children_of a = kids" using k by (simp add: children_of_def items_of_def)
  have sl: "clean_required a ''slug'' = Inr (slug r)" using r(1) by (simp add: made_from_def)
  have ns: "list_all (\<lambda>c. clean_required c ''slug'' \<noteq> Inr (slug r)) kids"
    using Cons.prems(2) kids sl by (simp add: no_shared_slug_def)
  have "slug_to_id ?st0 (slug r) = Some (next_id st)" by simp
  from children_loop_parents[OF l this ns] obtain cnew where
    c: "rows st1 = rows ?st0 @ cnew" "map parent_id cnew = replicate (length kids) (Some (next_id st))"
    by blast
  from children_loop_Inr[OF l] have n1: "next_id st1 = next_id st + 1 + int (length kids)" by auto
  have "list_all no_shared_slug ags" using Cons.prems(2) by simp
  from Cons.IH[OF b this] obtain new where
    n: "rows st' = rows st1 @ new" "map parent_id new = expected_parents ags (next_id st1)" by blast
  have "rows st' = rows st @ ((r # cnew) @ new)" using n(1) c(1) by simp
  moreover have "map parent_id ((r # cnew) @ new) = expected_parents (a # ags) (next_id st)"
    using r(2) c(2) n(2) n1 kids by simp
  ultimately show ?case by blast
qed

lemma admin_parent_ids:
  assumes "transform_admin_api params p = Inr rs" and "list_all no_shared_slug (top_level p)"
  shows "map parent_id rs = expected_parents (top_level p) 1"
proof -
  from assms(1) obtain av ags st where
    a: "py_get p ''agencies'' (JArr []) = Inr av" "py_iter av = Inr ags"
    and l: "agencies_loop ags \<lparr>rows = [], slug_to_id = Map.empty, next_id = 1\<rparr> = Inr st"
    and r: "rs = rows st"
    unfolding transform_admin_api_def by (auto dest!: bind_res_Inr split: if_splits)
  have t: "top_level p = ags" using a by (simp add: top_level_def items_of_def)
  from agencies_loop_parents[OF l] assms(2) t r show ?thesis by auto
qed

lemma agencies_loop_null_parents:
  "agencies_loop ags st = Inr st' \<Longrightarrow>
   \<exists>new. rows st' = rows st @ new \<and>
     map (\<lambda>r. parent_id r = None) new =
       concat (map (\<lambda>a. True # replicate (length (children_of a)) False) ags)"
proof (induction ags arbitrary: st)
  case Nil
  then show ?case by simp
next
  case (Cons a ags)
  from Cons.prems(1) obtain st1 where
    a: "agency_step a st = Inr st1" and b: "agencies_loop ags st1 = Inr st'"
    by (auto dest!: bind_res_Inr)
  from agency_step_Inr[OF a] obtain r kids where
    r: "parent_id r = None"
    and k: "bind_res (py_get a ''children'' (JArr [])) py_iter = Inr kids"
    and l: "children_loop (slug r) kids
               \<lparr>rows = rows st @ [r], slug_to_id = (slug_to_id st)(slug r \<mapsto> next_id st),
                next_id = next_id st + 1\<rparr> = Inr st1"
    by blast
  have kids: "children_of a = kids" using k by (simp add: children_of_def items_of_def)
  from children_loop_Inr[OF l] obtain cnew where
    c: "rows st1 = rows st @ [r] @ cnew" "list_all2 made_from kids cnew"
       "list_all (\<lambda>r. parent_id r \<noteq> None) cnew"
    by auto
  have len: "length cnew = length kids" using c(2) by (simp add: list_all2_lengthD)
  have "map (\<lambda>r. parent_id r = None) cnew = replicate (length cnew) False"
    using c(3) by (induction cnew) auto
  then have cf: "map (\<lambda>r. parent_id r = None) cnew = replicate (length kids) False"
    using len by simp
  from Cons.IH[OF b] obtain new where
    n: "rows st' = rows st1 @ new"
       "map (\<lambda>r. parent_id r = None) new =
          concat (map (\<lambda>a. True # replicate (length (children_of a)) False) ags)"
    by blast
  have "rows st' = rows st @ ((r # cnew) @ new)" using n(1) c(1) by simp
  moreover have "map (\<lambda>r. parent_id r = None) ((r # cnew) @ new) =
      concat (map (\<lambda>a. True # replicate (length (children_of a)) False) (a # ags))"
    using r cf n(2) kids by simp
  ultimately show ?case by blast
qed

lemma admin_parent_null_iff_top_level:
  assumes "transform_admin_api params p = Inr rs"
  shows "map (\<lambda>r. parent_id r = None) rs =
         concat (map (\<lambda>a. True # replicate (length (children_of a)) False) (top_level p))"
proof -
  from assms(1) obtain av ags st where
    a: "py_get p ''agencies'' (JArr []) = Inr av" "py_iter av = Inr ags"
    and l: "agencies_loop ags \<lparr>rows = [], slug_to_id = Map.empty, next_id = 1\<rparr> = Inr st"
    and r: "rs = rows st"
    unfolding transform_admin_api_def by (auto dest!: bind_res_Inr split: if_splits)
  have t: "top_level p = ags" using a by (simp add: top_level_def items_of_def)
  from agencies_loop_null_parents[OF l] t r show ?thesis by auto
qed

text \<open>
  Claim C2, at a payload in which agency \<^verbatim>\<open>a\<close> has two children and the first child's
  slug is \<^verbatim>\<open>a\<close> as well: the second child, with \<open>agency_id\<close> 3, gets \<open>parent_id\<close> 2,
  the id of its sibling, while its enclosing top-level agency has \<open>agency_id\<close> 1.
\<close>

theorem admin_parent_shared_slug:
  "transform_admin_api admin_params shared_slug_payload =
     Inr [\<lparr>agency_id = 1, name = str ''A'', short_name = [], display_name = [], sortable_name = [],
           slug = str ''a'', parent_id = None, cfr_references = []\<rparr>,
          \<lparr>agency_id = 2, name = str ''B'', short_name = [], display_name = [], sortable_name = [],
           slug = str ''a'', parent_id = Some 1, cfr_references = []\<rparr>,
          \<lparr>agency_id = 3, name = str ''C'', short_name = [], display_name = [], sortable_name = [],
           slug = str ''c'', parent_id = Some 2, cfr_references = []\<rparr>]"
  by (simp add: admin_params_def shared_slug_payload_def admin_eval)

section \<open>Properties of the loader\<close>



lemma insert_agency_table:
  "agencies (working (insert_agency conn a)) =
   filter (\<lambda>r. \<not> conflicts (stored_agency a) r) (agencies (working conn)) @ [stored_agency a]"
  by (simp add: insert_agency_def Let_def)


lemma insert_agency_keeps_constraints:
  assumes "agencies_ok (agencies (working conn))"
  shows "agencies_ok (agencies (working (insert_agency conn a)))"
proof -
  let ?keep = "filter (\<lambda>r. \<not> conflicts (stored_agency a) r) (agencies (working conn))"
  have 1: "distinct (map agency_id_col ?keep)" "distinct (map slug_col ?keep)"
    using assms by (simp_all add: agencies_ok_def distinct_map_filter)
  have 2: "agency_id_col (stored_agency a) \<notin> set (map agency_id_col ?keep)"
    "slug_col (stored_agency a) \<notin> set (map slug_col ?keep)"
    by (auto simp: conflicts_def)
  show ?thesis unfolding insert_agency_table agencies_ok_def using 1 2 by simp
qed





lemma insert_cfr_reference_accepts:
  "insert_cfr_reference conn (Some a) ref = (e, conn') \<Longrightarrow>
   fits_int64 a \<Longrightarrow> bindable (title ref) \<Longrightarrow> bindable (chapter_no ref) \<Longrightarrow>
   bindable (part ref) \<Longrightarrow>
   e = None \<and>
   (\<exists>row. cfr_references_tbl (working conn') = cfr_references_tbl (working conn) @ [row] \<and>
      ref_agency_id_col row = a) \<and>
   agencies (working conn') = agencies (working conn)"
  by (auto simp: insert_cfr_reference_def Let_def)

text \<open>
  Claim C3, on a new database with no agency at all: inserting a reference for
  \<open>agency_id\<close> 7 raises nothing, and the reference row is stored and committed.
\<close>

theorem insert_cfr_reference_unknown_agency:
  "agencies (working (DatabaseLoader empty_tables)) = [] \<and>
   insert_cfr_reference (DatabaseLoader empty_tables) (Some 7)
     \<lparr>title = SText (str ''1''), chapter_no = SText (str ''I''), part = SText []\<rparr> =
   (None,
    \<lparr>committed = empty_tables\<lparr>cfr_references_tbl :=
         [\<lparr>reference_id_col = 1, ref_agency_id_col = 7, title_col = Some (str ''1''),
           chapter_col = Some (str ''I''), part_col = Some []\<rparr>], cfr_references_seq := 1\<rparr>,
     working = empty_tables\<lparr>cfr_references_tbl :=
         [\<lparr>reference_id_col = 1, ref_agency_id_col = 7, title_col = Some (str ''1''),
           chapter_col = Some (str ''I''), part_col = Some []\<rparr>], cfr_references_seq := 1\<rparr>\<rparr>)"
  by (simp add: insert_cfr_reference_def DatabaseLoader_def empty_tables_def Let_def
      fits_int64_def)

section \<open>Properties of the versioner transform\<close>

lemmas versioner_eval =
  transform_versioner_api_def service_of_def versioner_params_def sample_xml_def
  sample_section_def sample_rows_def div1_rows_def div3_rows_def div4_rows_def div5_rows_def
  div8_row_def findall_desc_def head_of_def findtext_def body_of_def strip_def is_space_def
  str_def

lemma sample_eval: "transform_versioner_api versioner_params sample_xml = Inr sample_rows"
  by (simp add: versioner_eval)

lemma strip_Nil: "strip [] = []"
  by (simp add: strip_def)

lemma head_of_trimmed: "head_of el = trimmed_heading el"
  by (simp add: head_of_def trimmed_heading_def findtext_def strip_Nil split: option.splits)

lemma xml_get_None: "(xml_get el k = None) = (k \<notin> set (attr_keys el))"
  by (cases el) (simp_all add: map_of_eq_None_iff)

lemma body_of_no_paragraph: "findall_desc div8 ''P'' = [] \<Longrightarrow> body_of div8 = []"
  by (simp add: body_of_def)

lemma versioner_row_origin:
  assumes "transform_versioner_api params root = Inr rs" and "row \<in> set rs"
  shows "\<exists>div1 div3 div4 div5 div8.
           div1 \<in> set (findall_desc root ''DIV1'') \<and> div3 \<in> set (findall_desc div1 ''DIV3'') \<and>
           div4 \<in> set (findall_desc div3 ''DIV4'') \<and> div5 \<in> set (findall_desc div4 ''DIV5'') \<and>
           div8 \<in> set (findall_desc div5 ''DIV8'') \<and>
           row = div8_row (xml_get div1 ''N'') (head_of div1) (xml_get div3 ''N'') (head_of div3)
                   (xml_get div4 ''N'') (head_of div4) (xml_get div5 ''N'') (head_of div5) div8"
proof -
  have "rs = concat (map div1_rows (findall_desc root ''DIV1''))"
    using assms(1) unfolding transform_versioner_api_def
    by (auto dest!: bind_res_Inr split: if_splits)
  with assms(2) obtain div1 where
    1: "div1 \<in> set (findall_desc root ''DIV1'')" "row \<in> set (div1_rows div1)" by auto
  from 1(2) obtain div3 where
    3: "div3 \<in> set (findall_desc div1 ''DIV3'')"
       "row \<in> set (div3_rows (xml_get div1 ''N'') (head_of div1) div3)"
    unfolding div1_rows_def by auto
  from 3(2) obtain div4 where
    4: "div4 \<in> set (findall_desc div3 ''DIV4'')"
       "row \<in> set (div4_rows (xml_get div1 ''N'') (head_of div1) (xml_get div3 ''N'') (head_of div3) div4)"
    unfolding div3_rows_def by auto
  from 4(2) obtain div5 where
    5: "div5 \<in> set (findall_desc div4 ''DIV5'')"
       "row \<in> set (div5_rows (xml_get div1 ''N'') (head_of div1) (xml_get div3 ''N'') (head_of div3)
                      (xml_get div4 ''N'') (head_of div4) div5)"
    unfolding div4_rows_def by auto
  from 5(2) obtain div8 where
    8: "div8 \<in> set (findall_desc div5 ''DIV8'')"
       "row = div8_row (xml_get div1 ''N'') (head_of div1) (xml_get div3 ''N'') (head_of div3)
                   (xml_get div4 ''N'') (head_of div4) (xml_get div5 ''N'') (head_of div5) div8"
    unfolding div5_rows_def by auto
  from 1(1) 3(1) 4(1) 5(1) 8 show ?thesis by blast
qed

text \<open>
  Claim C8. Every row the versioner transform returns comes from a section below a part
  below a subchapter below a chapter below a title of the document; its five heading
  fields are strings, never \<^verbatim>\<open>None\<close>: the trimmed text of the first \<^verbatim>\<open>HEAD\<close> child of
  the title, chapter, subchapter, part and section, the empty string when there is no
  such child; and its body is a string, never \<^verbatim>\<open>None\<close>, the empty string when the
  section has no paragraph.
\<close>

theorem versioner_heads_and_body:
  assumes "transform_versioner_api params root = Inr rs" and "row \<in> set rs"
  shows "\<exists>div1 div3 div4 div5 div8.
           div1 \<in> set (findall_desc root ''DIV1'') \<and> div3 \<in> set (findall_desc div1 ''DIV3'') \<and>
           div4 \<in> set (findall_desc div3 ''DIV4'') \<and> div5 \<in> set (findall_desc div4 ''DIV5'') \<and>
           div8 \<in> set (findall_desc div5 ''DIV8'') \<and>
           title_head row = Some (trimmed_heading div1) \<and>
           chapter_head row = Some (trimmed_heading div3) \<and>
           subchapter_head row = Some (trimmed_heading div4) \<and>
           part_head row = Some (trimmed_heading div5) \<and>
           section_title row = Some (trimmed_heading div8) \<and>
           body row = Some (if findall_desc div8 ''P'' = [] then [] else body_of div8)"
proof -
  from versioner_row_origin[OF assms] obtain div1 div3 div4 div5 div8 where
    c: "div1 \<in> set (findall_desc root ''DIV1'')" "div3 \<in> set (findall_desc div1 ''DIV3'')"
       "div4 \<in> set (findall_desc div3 ''DIV4'')" "div5 \<in> set (findall_desc div4 ''DIV5'')"
       "div8 \<in> set (findall_desc div5 ''DIV8'')"
    and r: "row = div8_row (xml_get div1 ''N'') (head_of div1) (xml_get div3 ''N'') (head_of div3)
                   (xml_get div4 ''N'') (head_of div4) (xml_get div5 ''N'') (head_of div5) div8"
    by blast
  have "title_head row = Some (trimmed_heading div1)" "chapter_head row = Some (trimmed_heading div3)"
    "subchapter_head row = Some (trimmed_heading div4)" "part_head row = Some (trimmed_heading div5)"
    "section_title row = Some (trimmed_heading div8)"
    "body row = Some (if findall_desc div8 ''P'' = [] then [] else body_of div8)"
    using r by (simp_all add: div8_row_def head_of_trimmed body_of_no_paragraph)
  with c show ?thesis by blast
qed

text \<open>
  Claim C10. In every row the versioner transform returns, each of the five number
  fields is the \<^verbatim>\<open>N\<close> attribute of the title, chapter, subchapter, part or section the
  row comes from, and it is \<^verbatim>\<open>None\<close> exactly when that element has no such attribute.
\<close>

theorem versioner_numbers:
  assumes "transform_versioner_api params root = Inr rs" and "row \<in> set rs"
  shows "\<exists>div1 div3 div4 div5 div8.
           div1 \<in> set (findall_desc root ''DIV1'') \<and> div3 \<in> set (findall_desc div1 ''DIV3'') \<and>
           div4 \<in> set (findall_desc div3 ''DIV4'') \<and> div5 \<in> set (findall_desc div4 ''DIV5'') \<and>
           div8 \<in> set (findall_desc div5 ''DIV8'') \<and>
           title_number row = xml_get div1 ''N'' \<and>
           chapter_number row = xml_get div3 ''N'' \<and>
           subchapter_number row = xml_get div4 ''N'' \<and>
           part_number row = xml_get div5 ''N'' \<and>
           section_number row = xml_get div8 ''N'' \<and>
           (title_number row = None) = (''N'' \<notin> set (attr_keys div1)) \<and>
           (chapter_number row = None) = (''N'' \<notin> set (attr_keys div3)) \<and>
           (subchapter_number row = None) = (''N'' \<notin> set (attr_keys div4)) \<and>
           (part_number row = None) = (''N'' \<notin> set (attr_keys div5)) \<and>
           (section_number row = None) = (''N'' \<notin> set (attr_keys div8))"
proof -
  from versioner_row_origin[OF assms] obtain div1 div3 div4 div5 div8 where
    c: "div1 \<in> set (findall_desc root ''DIV1'')" "div3 \<in> set (findall_desc div1 ''DIV3'')"
       "div4 \<in> set (findall_desc div3 ''DIV4'')" "div5 \<in> set (findall_desc div4 ''DIV5'')"
       "div8 \<in> set (findall_desc div5 ''DIV8'')"
    and r: "row = div8_row (xml_get div1 ''N'') (head_of div1) (xml_get div3 ''N'') (head_of div3)
                   (xml_get div4 ''N'') (head_of div4) (xml_get div5 ''N'') (head_of div5) div8"
    by blast
  have "title_number row = xml_get div1 ''N''" "chapter_number row = xml_get div3 ''N''"
    "subchapter_number row = xml_get div4 ''N''" "part_number row = xml_get div5 ''N''"
    "section_number row = xml_get div8 ''N''"
    using r by (simp_all add: div8_row_def)
  with c show ?thesis using xml_get_None by metis
qed


theorem versioner_heads_and_body_witness:
  "transform_versioner_api versioner_params sample_xml = Inr sample_rows \<and>
   last sample_rows \<in> set sample_rows \<and>
   (\<exists>div1 div3 div4 div5 div8.
           div1 \<in> set (findall_desc sample_xml ''DIV1'') \<and> div3 \<in> set (findall_desc div1 ''DIV3'') \<and>
           div4 \<in> set (findall_desc div3 ''DIV4'') \<and> div5 \<in> set (findall_desc div4 ''DIV5'') \<and>
           div8 \<in> set (findall_desc div5 ''DIV8'') \<and>
           title_head (last sample_rows) = Some (trimmed_heading div1) \<and>
           chapter_head (last sample_rows) = Some (trimmed_heading div3) \<and>
           subchapter_head (last sample_rows) = Some (trimmed_heading div4) \<and>
           part_head (last sample_rows) = Some (trimmed_heading div5) \<and>
           section_title (last sample_rows) = Some (trimmed_heading div8) \<and>
           body (last sample_rows) = Some (if findall_desc div8 ''P'' = [] then [] else body_of div8)) \<and>
   subchapter_head (last sample_rows) = Some [] \<and> body (last sample_rows) = Some []"
proof -
  have e: "transform_versioner_api versioner_params sample_xml = Inr sample_rows"
    by (simp add: versioner_eval)
  have m: "last sample_rows \<in> set sample_rows" by (simp add: sample_rows_def)
  have v: "subchapter_head (last sample_rows) = Some [] \<and> body (last sample_rows) = Some []"
    by (simp add: sample_rows_def)
  show ?thesis using e m v versioner_heads_and_body[OF e m] by (intro conjI) simp_all
qed

theorem versioner_numbers_witness:
  "transform_versioner_api versioner_params sample_xml = Inr sample_rows \<and>
   last sample_rows \<in> set sample_rows \<and>
   (\<exists>div1 div3 div4 div5 div8.
           div1 \<in> set (findall_desc sample_xml ''DIV1'') \<and> div3 \<in> set (findall_desc div1 ''DIV3'') \<and>
           div4 \<in> set (findall_desc div3 ''DIV4'') \<and> div5 \<in> set (findall_desc div4 ''DIV5'') \<and>
           div8 \<in> set (findall_desc div5 ''DIV8'') \<and>
           title_number (last sample_rows) = xml_get div1 ''N'' \<and>
           chapter_number (last sample_rows) = xml_get div3 ''N'' \<and>
           subchapter_number (last sample_rows) = xml_get div4 ''N'' \<and>
           part_number (last sample_rows) = xml_get div5 ''N'' \<and>
           section_number (last sample_rows) = xml_get div8 ''N'' \<and>
           (title_number (last sample_rows) = None) = (''N'' \<notin> set (attr_keys div1)) \<and>
           (chapter_number (last sample_rows) = None) = (''N'' \<notin> set (attr_keys div3)) \<and>
           (subchapter_number (last sample_rows) = None) = (''N'' \<notin> set (attr_keys div4)) \<and>
           (part_number (last sample_rows) = None) = (''N'' \<notin> set (attr_keys div5)) \<and>
           (section_number (last sample_rows) = None) = (''N'' \<notin> set (attr_keys div8))) \<and>
   title_number (last sample_rows) = Some (str ''1'') \<and> subchapter_number (last sample_rows) = None \<and>
   section_number (last sample_rows) = None"
proof -
  have e: "transform_versioner_api versioner_params sample_xml = Inr sample_rows"
    by (simp add: versioner_eval)
  have m: "last sample_rows \<in> set sample_rows" by (simp add: sample_rows_def)
  have v: "title_number (last sample_rows) = Some (str ''1'') \<and> subchapter_number (last sample_rows) = None \<and>
   section_number (last sample_rows) = None"
    by (simp add: sample_rows_def)
  show ?thesis using e m v versioner_numbers[OF e m] by (intro conjI) simp_all
qed

end
